theory Spec2Isabelle
  imports Main "HOL-Library.AList"
begin

section \<open>The CNF data model\<close>

text \<open>
  A literal is a signed integer, a clause of the DP and DPLL engines a Python list of
  literals (order and duplicates kept), a formula a list of clauses. The DPLL model is a
  Python dict from variables to booleans.
\<close>

type_synonym clause = "int list"
type_synonym formula = "clause list"
type_synonym model = "int \<rightharpoonup> bool"

datatype py_error = IndexError

section \<open>dpll.py: the DPLL search engine\<close>

record dpll_stats =
  decisions :: nat
  backtracks :: nat
  unit_count :: nat
  pure_count :: nat

definition stats_init :: dpll_stats where
  "stats_init = \<lparr>decisions = 0, backtracks = 0, unit_count = 0, pure_count = 0\<rparr>"

text \<open>\<^verbatim>\<open>_find_unit\<close>: the literal of the first clause of length one.\<close>

fun find_unit :: "formula \<Rightarrow> int option" where
  "find_unit [] = None"
| "find_unit (clause # clauses) =
     (if length clause = 1 then Some (clause ! 0) else find_unit clauses)"

text \<open>
  \<^verbatim>\<open>_find_pure\<close>: the counter is a dict, which Python iterates in insertion order, so it
  is an association list here; \<open>AList.update\<close> overwrites a key in place and appends a
  new key at the end.
\<close>

definition count_lit :: "int \<Rightarrow> (int \<times> nat) list \<Rightarrow> (int \<times> nat) list" where
  "count_lit lit counter =
     AList.update lit ((case map_of counter lit of None \<Rightarrow> 0 | Some n \<Rightarrow> n) + 1) counter"

definition count_all :: "formula \<Rightarrow> (int \<times> nat) list" where
  "count_all clauses = fold (\<lambda>clause counter. fold count_lit clause counter) clauses []"

definition find_pure :: "formula \<Rightarrow> int option" where
  "find_pure clauses =
     (let counter = count_all clauses
      in find (\<lambda>lit. map_of counter (- lit) = None) (map fst counter))"

text \<open>
  \<^verbatim>\<open>_simplify\<close>: the loop over the clauses with the list \<^verbatim>\<open>new_formula\<close> under
  construction; \<open>None\<close> is the conflict.
\<close>

fun simplify_loop :: "formula \<Rightarrow> int \<Rightarrow> formula \<Rightarrow> formula option" where
  "simplify_loop [] lit new_formula = Some new_formula"
| "simplify_loop (clause # clauses) lit new_formula =
     (if lit \<in> set clause then simplify_loop clauses lit new_formula
      else if - lit \<in> set clause then
        (let reduced = filter (\<lambda>x. x \<noteq> - lit) clause
         in if reduced = [] then None
            else simplify_loop clauses lit (new_formula @ [reduced]))
      else simplify_loop clauses lit (new_formula @ [clause]))"

definition simplify :: "formula \<Rightarrow> int \<Rightarrow> formula option" where
  "simplify clauses lit = simplify_loop clauses lit []"

text \<open>What \<^verbatim>\<open>_simplify\<close> computes, without the accumulator.\<close>

definition conflict :: "formula \<Rightarrow> int \<Rightarrow> bool" where
  "conflict clauses lit =
     (\<exists>c \<in> set clauses. lit \<notin> set c \<and> - lit \<in> set c \<and> filter (\<lambda>x. x \<noteq> - lit) c = [])"

definition simplified :: "formula \<Rightarrow> int \<Rightarrow> formula" where
  "simplified clauses lit =
     map (filter (\<lambda>x. x \<noteq> - lit)) (filter (\<lambda>c. lit \<notin> set c) clauses)"

lemma simplify_loop_eq:
  "simplify_loop clauses lit acc =
     (if conflict clauses lit then None else Some (acc @ simplified clauses lit))"
proof (induction clauses arbitrary: acc)
  case Nil
  show ?case by (simp add: conflict_def simplified_def)
next
  case (Cons c cs)
  have keep: "- lit \<notin> set c \<Longrightarrow> filter (\<lambda>x. x \<noteq> - lit) c = c"
    by (auto simp: filter_id_conv)
  show ?case
    using keep by (auto simp: Cons.IH conflict_def simplified_def Let_def)
qed

lemma simplify_eq:
  "simplify clauses lit = (if conflict clauses lit then None else Some (simplified clauses lit))"
  by (simp add: simplify_def simplify_loop_eq)

lemma simplify_Some_iff:
  "simplify clauses lit = Some cs \<longleftrightarrow> \<not> conflict clauses lit \<and> cs = simplified clauses lit"
  by (auto simp: simplify_eq)

subsection \<open>Termination measures\<close>

text \<open>The size of a formula: one for each clause and one for each literal occurrence.\<close>

definition fsize :: "formula \<Rightarrow> nat" where
  "fsize clauses = sum_list (map (\<lambda>c. Suc (length c)) clauses)"

lemma fsize_Nil [simp]: "fsize [] = 0"
  by (simp add: fsize_def)

lemma fsize_Cons [simp]: "fsize (c # cs) = Suc (length c) + fsize cs"
  by (simp add: fsize_def)

lemma fsize_filter_le: "fsize (filter P cs) \<le> fsize cs"
  by (induction cs) auto

lemma fsize_map_filter_le: "fsize (map (filter Q) cs) \<le> fsize cs"
proof (induction cs)
  case Nil
  show ?case by simp
next
  case (Cons c cs)
  show ?case
    using Cons length_filter_le [of Q c] by (simp add: add_mono)
qed

lemma fsize_simplified_le: "fsize (simplified cs lit) \<le> fsize cs"
  unfolding simplified_def
  by (rule order_trans [OF fsize_map_filter_le fsize_filter_le])

lemma fsize_filter_less:
  assumes "c \<in> set cs" and "\<not> P c"
  shows "fsize (filter P cs) < fsize cs"
  using assms
proof (induction cs)
  case Nil
  then show ?case by simp
next
  case (Cons d ds)
  show ?case
  proof (cases "d = c")
    case True
    have "fsize (filter P ds) \<le> fsize ds" by (rule fsize_filter_le)
    with True Cons.prems show ?thesis by simp
  next
    case False
    with Cons have "fsize (filter P ds) < fsize ds" by simp
    then show ?thesis by simp
  qed
qed

lemma fsize_simplified_less_pos:
  assumes "c \<in> set cs" and "lit \<in> set c"
  shows "fsize (simplified cs lit) < fsize cs"
proof -
  have "fsize (filter (\<lambda>c. lit \<notin> set c) cs) < fsize cs"
    using assms by (intro fsize_filter_less [of c]) auto
  moreover have "fsize (simplified cs lit) \<le> fsize (filter (\<lambda>c. lit \<notin> set c) cs)"
    unfolding simplified_def by (rule fsize_map_filter_le)
  ultimately show ?thesis by simp
qed

lemma fsize_map_filter_less:
  assumes "c \<in> set cs" and "x \<in> set c" and "\<not> Q x"
  shows "fsize (map (filter Q) cs) < fsize cs"
  using assms
proof (induction cs)
  case Nil
  then show ?case by simp
next
  case (Cons d ds)
  have le: "fsize (map (filter Q) ds) \<le> fsize ds" by (rule fsize_map_filter_le)
  have led: "length (filter Q d) \<le> length d" by simp
  show ?case
  proof (cases "d = c")
    case True
    have "length (filter Q c) < length c"
      using Cons.prems(2,3) by (intro length_filter_less [of x]) auto
    with True le show ?thesis by simp
  next
    case False
    with Cons have "fsize (map (filter Q) ds) < fsize ds" by simp
    with led show ?thesis by (simp add: add_le_less_mono)
  qed
qed

lemma fsize_simplified_less_neg:
  assumes "c \<in> set cs" and "- lit \<in> set c"
  shows "fsize (simplified cs lit) < fsize cs"
proof (cases "lit \<in> set c")
  case True
  with assms(1) show ?thesis by (rule fsize_simplified_less_pos)
next
  case False
  with assms(1) have "c \<in> set (filter (\<lambda>c. lit \<notin> set c) cs)" by simp
  then have "fsize (simplified cs lit) < fsize (filter (\<lambda>c. lit \<notin> set c) cs)"
    unfolding simplified_def using assms(2) by (rule fsize_map_filter_less) simp
  also have "\<dots> \<le> fsize cs" by (rule fsize_filter_le)
  finally show ?thesis .
qed

lemma find_unit_Some: "find_unit cs = Some u \<Longrightarrow> [u] \<in> set cs"
proof (induction cs)
  case Nil
  then show ?case by simp
next
  case (Cons c cs)
  show ?case
  proof (cases "length c = 1")
    case True
    then obtain x where "c = [x]" by (cases c) auto
    with Cons.prems show ?thesis by simp
  next
    case False
    with Cons show ?thesis by simp
  qed
qed

subsection \<open>\<^verbatim>\<open>_propagate\<close>\<close>

text \<open>
  The first loop of \<^verbatim>\<open>_propagate\<close>: unit propagation. Each round counts one unit
  propagation, writes the literal into the model and simplifies; a conflict returns
  \<open>None\<close> for the clauses at once.
\<close>

function unit_loop :: "formula \<Rightarrow> model \<Rightarrow> dpll_stats \<Rightarrow> formula option \<times> model \<times> dpll_stats" where
  "unit_loop clauses model st =
     (case find_unit clauses of
        None \<Rightarrow> (Some clauses, model, st)
      | Some u \<Rightarrow>
          (let st' = st\<lparr>unit_count := unit_count st + 1\<rparr>;
               model' = model(\<bar>u\<bar> \<mapsto> (u > 0))
           in case simplify clauses u of
                None \<Rightarrow> (None, model', st')
              | Some clauses' \<Rightarrow> unit_loop clauses' model' st'))"
  by pat_completeness auto
termination
proof (relation "measure (\<lambda>(clauses, model, st). fsize clauses)")
  show "wf (measure (\<lambda>(clauses, model, st). fsize clauses))" by simp
next
  fix clauses :: formula and model :: model and st :: dpll_stats
    and u st' model' clauses'
  assume "find_unit clauses = Some u" and "simplify clauses u = Some clauses'"
  then have "[u] \<in> set clauses" and "clauses' = simplified clauses u"
    by (auto dest: find_unit_Some simp: simplify_Some_iff)
  then have "fsize clauses' < fsize clauses"
    using fsize_simplified_less_pos [of "[u]" clauses u] by simp
  then show "((clauses', model', st'), (clauses, model, st)) \<in> measure (\<lambda>(clauses, model, st). fsize clauses)"
    by simp
qed


lemma keys_count_lit: "fst ` set (count_lit l counter) = insert l (fst ` set counter)"
  by (simp add: count_lit_def dom_update)

lemma keys_fold_count_lit: "fst ` set (fold count_lit c counter) = set c \<union> fst ` set counter"
  by (induction c arbitrary: counter) (auto simp: keys_count_lit)

lemma keys_fold_clauses:
  "fst ` set (fold (\<lambda>clause counter. fold count_lit clause counter) cs counter)
     = \<Union> (set ` set cs) \<union> fst ` set counter"
  by (induction cs arbitrary: counter) (auto simp: keys_fold_count_lit)

lemma keys_count_all: "fst ` set (count_all cs) = \<Union> (set ` set cs)"
  by (simp add: count_all_def keys_fold_clauses)

lemma find_pure_Some:
  assumes "find_pure cs = Some p"
  shows "p \<in> \<Union> (set ` set cs)" and "- p \<notin> \<Union> (set ` set cs)"
proof -
  from assms have "p \<in> set (map fst (count_all cs))" and "map_of (count_all cs) (- p) = None"
    by (auto simp: find_pure_def Let_def find_Some_iff)
  then have "p \<in> fst ` set (count_all cs)" and "- p \<notin> fst ` set (count_all cs)"
    by (simp_all add: map_of_eq_None_iff)
  then show "p \<in> \<Union> (set ` set cs)" and "- p \<notin> \<Union> (set ` set cs)"
    by (simp_all add: keys_count_all)
qed

text \<open>The second loop of \<^verbatim>\<open>_propagate\<close>: pure-literal elimination.\<close>

function pure_loop :: "formula \<Rightarrow> model \<Rightarrow> dpll_stats \<Rightarrow> formula \<times> model \<times> dpll_stats" where
  "pure_loop clauses model st =
     (case find_pure clauses of
        None \<Rightarrow> (clauses, model, st)
      | Some p \<Rightarrow>
          pure_loop (filter (\<lambda>c. p \<notin> set c) clauses)
            (model(\<bar>p\<bar> \<mapsto> (p > 0)))
            (st\<lparr>pure_count := pure_count st + 1\<rparr>))"
  by pat_completeness auto
termination
proof (relation "measure (\<lambda>(clauses, model, st). fsize clauses)")
  show "wf (measure (\<lambda>(clauses, model, st). fsize clauses))" by simp
next
  fix clauses :: formula and model :: model and st :: dpll_stats and p
  assume "find_pure clauses = Some p"
  then obtain c where "c \<in> set clauses" and "p \<in> set c"
    by (auto dest: find_pure_Some(1))
  then have "fsize (filter (\<lambda>c. p \<notin> set c) clauses) < fsize clauses"
    by (intro fsize_filter_less [of c]) auto
  then show "((filter (\<lambda>c. p \<notin> set c) clauses, model(\<bar>p\<bar> \<mapsto> (p > 0)),
               st\<lparr>pure_count := pure_count st + 1\<rparr>), (clauses, model, st))
             \<in> measure (\<lambda>(clauses, model, st). fsize clauses)"
    by simp
qed

definition propagate :: "formula \<Rightarrow> model \<Rightarrow> dpll_stats \<Rightarrow> formula option \<times> model \<times> dpll_stats" where
  "propagate clauses model st =
     (case unit_loop clauses model st of
        (None, model', st') \<Rightarrow> (None, model', st')
      | (Some clauses', model', st') \<Rightarrow>
          (case pure_loop clauses' model' st' of
             (clauses'', model'', st'') \<Rightarrow> (Some clauses'', model'', st'')))"

declare unit_loop.simps [simp del] pure_loop.simps [simp del]

lemma unit_loop_fsize:
  "unit_loop clauses model st = (Some clauses', model', st') \<Longrightarrow> fsize clauses' \<le> fsize clauses"
proof (induction clauses model st rule: unit_loop.induct)
  case (1 clauses model st)
  show ?case
  proof (cases "find_unit clauses")
    case None
    with "1.prems" show ?thesis by (simp add: unit_loop.simps)
  next
    case (Some u)
    show ?thesis
    proof (cases "simplify clauses u")
      case None
      with Some "1.prems" show ?thesis by (simp add: unit_loop.simps)
    next
      case (Some cs)
      from Some have cs: "cs = simplified clauses u" by (simp add: simplify_Some_iff)
      from \<open>find_unit clauses = Some u\<close> Some "1.prems"
      have "unit_loop cs (model(\<bar>u\<bar> \<mapsto> (u > 0))) (st\<lparr>unit_count := unit_count st + 1\<rparr>)
              = (Some clauses', model', st')"
        by (simp add: unit_loop.simps [of clauses])
      then have "fsize clauses' \<le> fsize cs"
        by (rule "1.IH" [OF \<open>find_unit clauses = Some u\<close> refl refl Some])
      also have "\<dots> \<le> fsize clauses" unfolding cs by (rule fsize_simplified_le)
      finally show ?thesis .
    qed
  qed
qed

lemma pure_loop_fsize:
  "pure_loop clauses model st = (clauses', model', st') \<Longrightarrow> fsize clauses' \<le> fsize clauses"
proof (induction clauses model st rule: pure_loop.induct)
  case (1 clauses model st)
  show ?case
  proof (cases "find_pure clauses")
    case None
    with "1.prems" show ?thesis by (simp add: pure_loop.simps)
  next
    case (Some p)
    with "1.prems"
    have "pure_loop (filter (\<lambda>c. p \<notin> set c) clauses) (model(\<bar>p\<bar> \<mapsto> (p > 0)))
            (st\<lparr>pure_count := pure_count st + 1\<rparr>) = (clauses', model', st')"
      by (simp add: pure_loop.simps [of clauses])
    then have "fsize clauses' \<le> fsize (filter (\<lambda>c. p \<notin> set c) clauses)"
      by (rule "1.IH" [OF Some])
    also have "\<dots> \<le> fsize clauses" by (rule fsize_filter_le)
    finally show ?thesis .
  qed
qed

lemma propagate_fsize:
  assumes "propagate clauses model st = (Some clauses', model', st')"
  shows "fsize clauses' \<le> fsize clauses"
proof -
  from assms obtain cs m s where u: "unit_loop clauses model st = (Some cs, m, s)"
    and p: "pure_loop cs m s = (clauses', model', st')"
    by (auto simp: propagate_def split: prod.splits option.splits)
  from p have "fsize clauses' \<le> fsize cs" by (rule pure_loop_fsize)
  also from u have "\<dots> \<le> fsize clauses" by (rule unit_loop_fsize)
  finally show ?thesis .
qed


subsection \<open>\<^verbatim>\<open>solve\<close>\<close>

text \<open>
  One call of \<^verbatim>\<open>DPLLSolver.solve\<close> with both arguments given. The result is the
  returned value (\<open>None\<close> or a model) or the \<^verbatim>\<open>IndexError\<close> that
  \<^verbatim>\<open>clauses[0][0]\<close> raises on an empty first clause, together with the counters.
  The loop \<^verbatim>\<open>for truth in (True, False)\<close> is written out as its two rounds.
\<close>

function dpll_solve :: "formula \<Rightarrow> model \<Rightarrow> dpll_stats \<Rightarrow> (py_error + model option) \<times> dpll_stats" where
  "dpll_solve clauses model st =
     (case propagate clauses model st of
        (None, model1, st1) \<Rightarrow> (Inr None, st1)
      | (Some clauses1, model1, st1) \<Rightarrow>
          if clauses1 = [] then (Inr (Some model1), st1)
          else if clauses1 ! 0 = [] then (Inl IndexError, st1)
          else
            (let pivot = clauses1 ! 0 ! 0;
                 st2 = st1\<lparr>decisions := decisions st1 + 1\<rparr>
             in case (case simplify clauses1 pivot of
                        None \<Rightarrow> (Inr None, st2)
                      | Some reduced \<Rightarrow> dpll_solve reduced (model1(\<bar>pivot\<bar> \<mapsto> True)) st2) of
                  (Inl e, st3) \<Rightarrow> (Inl e, st3)
                | (Inr (Some result), st3) \<Rightarrow> (Inr (Some result), st3)
                | (Inr None, st3) \<Rightarrow>
                    (let st4 = st3\<lparr>backtracks := backtracks st3 + 1\<rparr>
                     in case (case simplify clauses1 (- pivot) of
                                None \<Rightarrow> (Inr None, st4)
                              | Some reduced \<Rightarrow>
                                  dpll_solve reduced (model1(\<bar>pivot\<bar> \<mapsto> False)) st4) of
                          (Inl e, st5) \<Rightarrow> (Inl e, st5)
                        | (Inr (Some result), st5) \<Rightarrow> (Inr (Some result), st5)
                        | (Inr None, st5) \<Rightarrow>
                            (Inr None, st5\<lparr>backtracks := backtracks st5 + 1\<rparr>))))"
  by pat_completeness auto

lemma pivot_branch_smaller:
  assumes "propagate clauses model st = (Some clauses1, model1, st1)"
    and "clauses1 \<noteq> []" and "clauses1 ! 0 \<noteq> []"
    and "simplify clauses1 lit = Some reduced"
    and "lit = clauses1 ! 0 ! 0 \<or> lit = - (clauses1 ! 0 ! 0)"
  shows "fsize reduced < fsize clauses"
proof -
  from assms(2,3) have c: "clauses1 ! 0 \<in> set clauses1" and l: "clauses1 ! 0 ! 0 \<in> set (clauses1 ! 0)"
    by simp_all
  from assms(4) have r: "reduced = simplified clauses1 lit" by (simp add: simplify_Some_iff)
  have "fsize reduced < fsize clauses1"
  proof (cases "lit = clauses1 ! 0 ! 0")
    case True
    with c l show ?thesis unfolding r by (intro fsize_simplified_less_pos [of "clauses1 ! 0"]) auto
  next
    case False
    with assms(5) have "- lit = clauses1 ! 0 ! 0" by simp
    with c l show ?thesis unfolding r by (intro fsize_simplified_less_neg [of "clauses1 ! 0"]) auto
  qed
  also from assms(1) have "\<dots> \<le> fsize clauses" by (rule propagate_fsize)
  finally show ?thesis .
qed

termination dpll_solve
proof (relation "measure (\<lambda>(clauses, model, st). fsize clauses)", goal_cases)
  case 1
  show ?case by simp
next
  case 2
  then show ?case
    by clarsimp (rule pivot_branch_smaller [OF sym], assumption, assumption, assumption, assumption, simp)
next
  case 3
  then show ?case
    by clarsimp (rule pivot_branch_smaller [OF sym], assumption, assumption, assumption, assumption, simp)
qed


declare dpll_solve.simps [simp del]

text \<open>
  \<^verbatim>\<open>DPLLSolver(cnf).solve()\<close>: a fresh instance (all counters zero) called without
  arguments, so that the clauses are the copy \<^verbatim>\<open>[c[:] for c in self._formula]\<close> and the
  model is the empty dict.
\<close>

definition DPLLSolver_solve :: "formula \<Rightarrow> (py_error + model option) \<times> dpll_stats" where
  "DPLLSolver_solve cnf = dpll_solve (map (\<lambda>c. c) cnf) Map.empty stats_init"


subsection \<open>No empty clause is ever produced from non-empty ones\<close>

lemma simplify_no_empty:
  assumes "simplify cs lit = Some cs'" and "\<forall>c \<in> set cs. c \<noteq> []"
  shows "\<forall>c \<in> set cs'. c \<noteq> []"
proof
  fix d assume "d \<in> set cs'"
  with assms(1) obtain c where c: "c \<in> set cs" "lit \<notin> set c" and d: "d = filter (\<lambda>x. x \<noteq> - lit) c"
    and nc: "\<not> conflict cs lit"
    by (auto simp: simplify_Some_iff simplified_def)
  show "d \<noteq> []"
  proof (cases "- lit \<in> set c")
    case True
    with c nc show ?thesis unfolding d conflict_def by blast
  next
    case False
    then have "filter (\<lambda>x. x \<noteq> - lit) c = c" by (auto simp: filter_id_conv)
    with c assms(2) show ?thesis unfolding d by simp
  qed
qed

lemma unit_loop_no_empty:
  "unit_loop clauses model st = (Some clauses', model', st') \<Longrightarrow> \<forall>c \<in> set clauses. c \<noteq> []
     \<Longrightarrow> \<forall>c \<in> set clauses'. c \<noteq> []"
proof (induction clauses model st rule: unit_loop.induct)
  case (1 clauses model st)
  show ?case
  proof (cases "find_unit clauses")
    case None
    with "1.prems" show ?thesis by (simp add: unit_loop.simps)
  next
    case (Some u)
    show ?thesis
    proof (cases "simplify clauses u")
      case None
      with Some "1.prems" show ?thesis by (simp add: unit_loop.simps)
    next
      case (Some cs)
      from Some "1.prems"(2) have ne: "\<forall>c \<in> set cs. c \<noteq> []" by (rule simplify_no_empty)
      from \<open>find_unit clauses = Some u\<close> Some "1.prems"(1)
      have "unit_loop cs (model(\<bar>u\<bar> \<mapsto> (u > 0))) (st\<lparr>unit_count := unit_count st + 1\<rparr>)
              = (Some clauses', model', st')"
        by (simp add: unit_loop.simps [of clauses])
      then show ?thesis
        using ne by (rule "1.IH" [OF \<open>find_unit clauses = Some u\<close> refl refl Some])
    qed
  qed
qed

lemma pure_loop_subset:
  "pure_loop clauses model st = (clauses', model', st') \<Longrightarrow> set clauses' \<subseteq> set clauses"
proof (induction clauses model st rule: pure_loop.induct)
  case (1 clauses model st)
  show ?case
  proof (cases "find_pure clauses")
    case None
    with "1.prems" show ?thesis by (simp add: pure_loop.simps)
  next
    case (Some p)
    with "1.prems"
    have "pure_loop (filter (\<lambda>c. p \<notin> set c) clauses) (model(\<bar>p\<bar> \<mapsto> (p > 0)))
            (st\<lparr>pure_count := pure_count st + 1\<rparr>) = (clauses', model', st')"
      by (simp add: pure_loop.simps [of clauses])
    then have "set clauses' \<subseteq> set (filter (\<lambda>c. p \<notin> set c) clauses)"
      by (rule "1.IH" [OF Some])
    then show ?thesis by auto
  qed
qed

lemma propagate_no_empty:
  assumes "propagate clauses model st = (Some clauses', model', st')"
    and "\<forall>c \<in> set clauses. c \<noteq> []"
  shows "\<forall>c \<in> set clauses'. c \<noteq> []"
proof -
  from assms(1) obtain cs m s where u: "unit_loop clauses model st = (Some cs, m, s)"
    and p: "pure_loop cs m s = (clauses', model', st')"
    by (auto simp: propagate_def split: prod.splits option.splits)
  from u assms(2) have "\<forall>c \<in> set cs. c \<noteq> []" by (rule unit_loop_no_empty)
  with pure_loop_subset [OF p] show ?thesis by blast
qed

text \<open>The equation of \<^verbatim>\<open>solve\<close> once propagation has left a non-empty first clause.\<close>

lemma dpll_solve_branch:
  assumes "propagate clauses model st = (Some clauses1, model1, st1)"
    and "clauses1 \<noteq> []" and "clauses1 ! 0 \<noteq> []"
  shows "dpll_solve clauses model st =
    (case (case simplify clauses1 (clauses1 ! 0 ! 0) of
             None \<Rightarrow> (Inr None, st1\<lparr>decisions := decisions st1 + 1\<rparr>)
           | Some reduced \<Rightarrow>
               dpll_solve reduced (model1(\<bar>clauses1 ! 0 ! 0\<bar> \<mapsto> True))
                 (st1\<lparr>decisions := decisions st1 + 1\<rparr>)) of
       (Inl e, st3) \<Rightarrow> (Inl e, st3)
     | (Inr (Some result), st3) \<Rightarrow> (Inr (Some result), st3)
     | (Inr None, st3) \<Rightarrow>
         (case (case simplify clauses1 (- (clauses1 ! 0 ! 0)) of
                  None \<Rightarrow> (Inr None, st3\<lparr>backtracks := backtracks st3 + 1\<rparr>)
                | Some reduced \<Rightarrow>
                    dpll_solve reduced (model1(\<bar>clauses1 ! 0 ! 0\<bar> \<mapsto> False))
                      (st3\<lparr>backtracks := backtracks st3 + 1\<rparr>)) of
            (Inl e, st5) \<Rightarrow> (Inl e, st5)
          | (Inr (Some result), st5) \<Rightarrow> (Inr (Some result), st5)
          | (Inr None, st5) \<Rightarrow> (Inr None, st5\<lparr>backtracks := backtracks st5 + 1\<rparr>)))"
  using assms unfolding dpll_solve.simps [of clauses] Let_def by simp

lemma dpll_solve_conflict:
  "propagate clauses model st = (None, model1, st1) \<Longrightarrow> dpll_solve clauses model st = (Inr None, st1)"
  by (simp add: dpll_solve.simps [of clauses])

lemma dpll_solve_done:
  "propagate clauses model st = (Some [], model1, st1)
     \<Longrightarrow> dpll_solve clauses model st = (Inr (Some model1), st1)"
  by (simp add: dpll_solve.simps [of clauses])

lemma dpll_solve_IndexError:
  "propagate clauses model st = (Some clauses1, model1, st1) \<Longrightarrow> clauses1 \<noteq> []
     \<Longrightarrow> clauses1 ! 0 = [] \<Longrightarrow> dpll_solve clauses model st = (Inl IndexError, st1)"
  by (simp add: dpll_solve.simps [of clauses])

lemma dpll_solve_no_IndexError:
  "\<forall>c \<in> set clauses. c \<noteq> [] \<Longrightarrow> fst (dpll_solve clauses model st) \<noteq> Inl IndexError"
proof (induction clauses model st rule: dpll_solve.induct)
  case (1 clauses model st)
  obtain x model1 st1 where pr: "propagate clauses model st = (x, model1, st1)"
    by (cases "propagate clauses model st") auto
  show ?case
  proof (cases x)
    case None
    with pr show ?thesis by (simp add: dpll_solve_conflict)
  next
    case (Some clauses1)
    note pr1 = pr [unfolded Some]
    from pr1 "1.prems" have ne: "\<forall>c \<in> set clauses1. c \<noteq> []" by (rule propagate_no_empty)
    show ?thesis
    proof (cases "clauses1 = []")
      case True
      with pr1 show ?thesis by (simp add: dpll_solve_done)
    next
      case False
      with ne have hd_ne: "clauses1 ! 0 \<noteq> []" by (cases clauses1) auto
      let ?pivot = "clauses1 ! 0 ! 0"
      let ?st2 = "st1\<lparr>decisions := decisions st1 + 1\<rparr>"
      let ?r1 = "case simplify clauses1 ?pivot of None \<Rightarrow> (Inr None, ?st2)
            | Some reduced \<Rightarrow> dpll_solve reduced (model1(\<bar>?pivot\<bar> \<mapsto> True)) ?st2"
      have r1_ok: "fst ?r1 \<noteq> Inl IndexError"
      proof (cases "simplify clauses1 ?pivot")
        case None
        then show ?thesis by simp
      next
        case (Some reduced)
        from Some ne have "\<forall>c \<in> set reduced. c \<noteq> []" by (rule simplify_no_empty)
        then have "fst (dpll_solve reduced (model1(\<bar>?pivot\<bar> \<mapsto> True)) ?st2) \<noteq> Inl IndexError"
          by (rule "1.IH"(1) [OF pr [symmetric] \<open>x = Some clauses1\<close> refl False hd_ne
              refl refl Some])
        with Some show ?thesis by simp
      qed
      obtain v1 st3 where r1_eq: "?r1 = (v1, st3)" by (cases ?r1) auto
      let ?st4 = "st3\<lparr>backtracks := backtracks st3 + 1\<rparr>"
      let ?r2 = "case simplify clauses1 (- ?pivot) of None \<Rightarrow> (Inr None, ?st4)
            | Some reduced \<Rightarrow> dpll_solve reduced (model1(\<bar>?pivot\<bar> \<mapsto> False)) ?st4"
      have r2_ok: "fst ?r2 \<noteq> Inl IndexError" if v1: "v1 = Inr None"
      proof (cases "simplify clauses1 (- ?pivot)")
        case None
        then show ?thesis by simp
      next
        case (Some reduced)
        from Some ne have "\<forall>c \<in> set reduced. c \<noteq> []" by (rule simplify_no_empty)
        then have "fst (dpll_solve reduced (model1(\<bar>?pivot\<bar> \<mapsto> False)) ?st4) \<noteq> Inl IndexError"
          by (rule "1.IH"(2) [OF pr [symmetric] \<open>x = Some clauses1\<close> refl False hd_ne
              refl refl r1_eq [symmetric] v1 refl refl Some])
        with Some show ?thesis by simp
      qed
      note unfold = dpll_solve_branch [OF pr1 False hd_ne, unfolded r1_eq]
      show ?thesis
      proof (cases v1)
        case (Inl e)
        with r1_ok r1_eq have "e \<noteq> IndexError" by simp
        then show ?thesis by (cases e) simp
      next
        case (Inr b)
        show ?thesis
        proof (cases b)
          case (Some result)
          with Inr show ?thesis by (simp add: unfold)
        next
          case None
          with Inr have v1: "v1 = Inr None" by simp
          obtain v2 st5 where r2_eq: "?r2 = (v2, st5)" by (cases ?r2) auto
          from r2_ok [OF v1] r2_eq have "v2 \<noteq> Inl IndexError" by simp
          then show ?thesis
            unfolding unfold v1 using r2_eq by (auto split: sum.splits option.splits)
        qed
      qed
    qed
  qed
qed


section \<open>dp.py: the Davis-Putnam elimination engine\<close>

text \<open>
  The instance state of \<^verbatim>\<open>DPSolver\<close>: the working clause list and the two counters of
  \<^verbatim>\<open>_stats\<close>.
\<close>

record dp_state =
  dp_clauses :: formula
  vars_eliminated :: nat
  resolvents :: nat

text \<open>\<^verbatim>\<open>DPSolver.__init__\<close>: every clause is copied (\<^verbatim>\<open>c[:]\<close>), the counters start at zero.\<close>

definition DPSolver_init :: "formula \<Rightarrow> dp_state" where
  "DPSolver_init cnf = \<lparr>dp_clauses = map (\<lambda>c. c) cnf, vars_eliminated = 0, resolvents = 0\<rparr>"

text \<open>\<^verbatim>\<open>_choose_var\<close>: the magnitude of the first literal of the first non-empty clause.\<close>

fun choose_var :: "formula \<Rightarrow> int option" where
  "choose_var [] = None"
| "choose_var (clause # cs) = (if clause \<noteq> [] then Some \<bar>clause ! 0\<bar> else choose_var cs)"

text \<open>The first loop of \<^verbatim>\<open>_eliminate\<close>, with the three lists under construction.\<close>

fun split_clauses :: "int \<Rightarrow> formula \<Rightarrow> formula \<times> formula \<times> formula \<Rightarrow> formula \<times> formula \<times> formula" where
  "split_clauses var [] (pos, neg, rest) = (pos, neg, rest)"
| "split_clauses var (clause # cs) (pos, neg, rest) =
     (if var \<in> set clause then split_clauses var cs (pos @ [clause], neg, rest)
      else if - var \<in> set clause then split_clauses var cs (pos, neg @ [clause], rest)
      else split_clauses var cs (pos, neg, rest @ [clause]))"

text \<open>
  The resolvent is a list comprehension over the Python set \<^verbatim>\<open>set(c1) | set(c2)\<close>. Python
  fixes no iteration order for a set, so the order is a parameter of the model: a function
  that lists the union of two clauses. All that is known of it is \<open>set_order\<close>: it lists
  every literal of the union once.
\<close>

type_synonym union_iter = "clause \<Rightarrow> clause \<Rightarrow> int list"

definition set_order :: "union_iter \<Rightarrow> bool" where
  "set_order u = (\<forall>c1 c2. set (u c1 c2) = set c1 \<union> set c2 \<and> distinct (u c1 c2))"

definition resolvent :: "union_iter \<Rightarrow> int \<Rightarrow> clause \<Rightarrow> clause \<Rightarrow> clause" where
  "resolvent u var c1 c2 = filter (\<lambda>l. l \<notin> {var, - var}) (u c1 c2)"

text \<open>
  The nested loops over \<^verbatim>\<open>pos\<close> and \<^verbatim>\<open>neg\<close>, over the pairs in the order the loops
  visit them; the counter of resolvents is threaded through, since an early
  \<^verbatim>\<open>return None\<close> keeps what was counted so far.
\<close>

fun resolve_loop :: "union_iter \<Rightarrow> int \<Rightarrow> (clause \<times> clause) list \<Rightarrow> formula \<Rightarrow> nat \<Rightarrow> formula option \<times> nat" where
  "resolve_loop u var [] new_clauses n = (Some new_clauses, n)"
| "resolve_loop u var ((c1, c2) # ps) new_clauses n =
     (let r = resolvent u var c1 c2
      in if r = [] then (None, n)
         else resolve_loop u var ps (new_clauses @ [r]) (n + 1))"

definition eliminate :: "union_iter \<Rightarrow> int \<Rightarrow> dp_state \<Rightarrow> formula option \<times> dp_state" where
  "eliminate u var s =
     (case split_clauses var (dp_clauses s) ([], [], []) of
        (pos, neg, rest) \<Rightarrow>
          (case resolve_loop u var (List.product pos neg) [] (resolvents s) of
             (None, n) \<Rightarrow> (None, s\<lparr>resolvents := n\<rparr>)
           | (Some new_clauses, n) \<Rightarrow>
               (Some (rest @ new_clauses),
                s\<lparr>dp_clauses := rest @ new_clauses, resolvents := n,
                  vars_eliminated := vars_eliminated s + 1\<rparr>)))"

text \<open>
  The loop of \<^verbatim>\<open>DPSolver.solve\<close>. It is \<^verbatim>\<open>while True\<close> in the source, so the model
  is a partial function: \<open>None\<close> stands for a loop that never returns.
\<close>

partial_function (option) dp_loop :: "union_iter \<Rightarrow> dp_state \<Rightarrow> (bool \<times> dp_state) option" where
  "dp_loop u s =
     (if dp_clauses s = [] then Some (True, s)
      else if (\<exists>c \<in> set (dp_clauses s). length c = 0) then Some (False, s)
      else (case choose_var (dp_clauses s) of
              None \<Rightarrow> Some (True, s)
            | Some v \<Rightarrow>
                (case eliminate u v s of
                   (None, s') \<Rightarrow> Some (False, s')
                 | (Some cs, s') \<Rightarrow> dp_loop u s')))"

declare dp_loop.simps [code]

definition DPSolver_solve :: "union_iter \<Rightarrow> formula \<Rightarrow> (bool \<times> dp_state) option" where
  "DPSolver_solve u cnf = dp_loop u (DPSolver_init cnf)"


section \<open>resolution.py: the resolution closure engine\<close>

text \<open>
  A clause of this engine is a \<^verbatim>\<open>frozenset\<close> of literals: an \<open>int set\<close>. The state of
  a run: the local variables \<^verbatim>\<open>pool\<close> and \<^verbatim>\<open>total_count\<close> of \<^verbatim>\<open>solve\<close> and
  the instance attributes \<^verbatim>\<open>clauses_seen\<close>, \<^verbatim>\<open>derived_indices\<close> and
  \<^verbatim>\<open>stats["pairs"]\<close>. The attribute \<^verbatim>\<open>clauses_initial\<close> is never written after
  the constructor and is passed along unchanged.
\<close>

type_synonym sclause = "int set"

record res_state =
  pool :: "sclause list"
  total_count :: nat
  clauses_seen :: "sclause set"
  derived_indices :: "nat list"
  pairs :: nat

text \<open>
  \<^verbatim>\<open>_resolve_pair\<close> loops over the literals of the frozenset \<^verbatim>\<open>left\<close>; as for the DP
  engine, the order in which Python iterates a set is a parameter, known only to list
  every element of a finite set once (\<open>iter_order\<close>).
\<close>

type_synonym set_iter = "sclause \<Rightarrow> int list"

definition iter_order :: "set_iter \<Rightarrow> bool" where
  "iter_order iter = (\<forall>A. finite A \<longrightarrow> set (iter A) = A \<and> distinct (iter A))"

definition resolve_pair :: "set_iter \<Rightarrow> sclause \<Rightarrow> sclause \<Rightarrow> sclause list" where
  "resolve_pair iter left right =
     map (\<lambda>lit. (left - {lit}) \<union> (right - {- lit})) (filter (\<lambda>lit. - lit \<in> right) (iter left))"

text \<open>
  The innermost loop of \<^verbatim>\<open>solve\<close>, over the resolvents of one pair. The boolean says
  whether the loop left the function by \<^verbatim>\<open>return True\<close>.
\<close>

fun add_resolvents :: "sclause list \<Rightarrow> res_state \<Rightarrow> bool \<times> res_state" where
  "add_resolvents [] s = (False, s)"
| "add_resolvents (clause # cs) s =
     (let s1 = s\<lparr>pairs := pairs s + 1\<rparr>
      in if clause \<notin> clauses_seen s1 then
           (let s2 = s1\<lparr>total_count := total_count s1 + 1,
                        pool := pool s1 @ [clause],
                        clauses_seen := insert clause (clauses_seen s1),
                        derived_indices := derived_indices s1 @ [total_count s1 + 1]\<rparr>
            in if clause = {} then (True, s2) else add_resolvents cs s2)
         else add_resolvents cs s1)"

text \<open>The loop over \<^verbatim>\<open>j\<close> for one \<^verbatim>\<open>i\<close>, and the loop over \<^verbatim>\<open>i\<close>.\<close>

fun scan_j :: "set_iter \<Rightarrow> nat \<Rightarrow> nat list \<Rightarrow> res_state \<Rightarrow> bool \<times> res_state" where
  "scan_j iter i [] s = (False, s)"
| "scan_j iter i (j # js) s =
     (case add_resolvents (resolve_pair iter (pool s ! i) (pool s ! j)) s of
        (returned, s') \<Rightarrow> if returned then (True, s') else scan_j iter i js s')"

fun scan_i :: "set_iter \<Rightarrow> nat \<Rightarrow> nat list \<Rightarrow> res_state \<Rightarrow> bool \<times> res_state" where
  "scan_i iter current_len [] s = (False, s)"
| "scan_i iter current_len (i # is) s =
     (case scan_j iter i [i + 1 ..< current_len] s of
        (returned, s') \<Rightarrow> if returned then (True, s') else scan_i iter current_len is s')"

text \<open>One round of the \<^verbatim>\<open>while True\<close> loop up to its final test: a pass over all pairs.\<close>

definition full_pass :: "set_iter \<Rightarrow> res_state \<Rightarrow> bool \<times> res_state" where
  "full_pass iter s = (let current_len = length (pool s) in scan_i iter current_len [0 ..< current_len] s)"

text \<open>
  The \<^verbatim>\<open>while True\<close> loop, a partial function since nothing in its text bounds the
  number of rounds. The verdict \<open>True\<close> is UNSAT, \<open>False\<close> is SAT.
\<close>

partial_function (option) res_loop :: "set_iter \<Rightarrow> sclause list \<Rightarrow> res_state \<Rightarrow> (bool \<times> res_state) option" where
  "res_loop iter clauses_initial s =
     (case full_pass iter s of
        (returned, s') \<Rightarrow>
          if returned then Some (True, s')
          else if length (pool s') = length clauses_initial + length (derived_indices s')
                  \<and> length clauses_initial + length (derived_indices s') = total_count s'
          then Some (False, s')
          else res_loop iter clauses_initial s')"

declare res_loop.simps [code]

text \<open>
  \<^verbatim>\<open>ResolutionEngine(clauses_input).solve()\<close> on a fresh instance: the constructor sets
  \<^verbatim>\<open>clauses_seen\<close> to the set of the input clauses, \<^verbatim>\<open>derived_indices\<close> to the empty
  list and the counter to zero; \<^verbatim>\<open>solve\<close> starts from a copy of the input as pool.
\<close>

definition ResolutionEngine_init :: "sclause list \<Rightarrow> res_state" where
  "ResolutionEngine_init clauses_input =
     \<lparr>pool = clauses_input, total_count = length clauses_input,
      clauses_seen = set clauses_input, derived_indices = [], pairs = 0\<rparr>"

definition ResolutionEngine_solve :: "set_iter \<Rightarrow> sclause list \<Rightarrow> (bool \<times> res_state) option" where
  "ResolutionEngine_solve iter clauses_input =
     res_loop iter clauses_input (ResolutionEngine_init clauses_input)"


section \<open>What the models satisfy\<close>

text \<open>
  A literal is made true by a DPLL model when it is positive and its variable is mapped to
  \<open>True\<close>, or negative and its variable is mapped to \<open>False\<close>.
\<close>

definition lit_true :: "model \<Rightarrow> int \<Rightarrow> bool" where
  "lit_true m l = ((l > 0 \<and> m \<bar>l\<bar> = Some True) \<or> (l < 0 \<and> m \<bar>l\<bar> = Some False))"

definition clause_true :: "model \<Rightarrow> clause \<Rightarrow> bool" where
  "clause_true m c = (\<exists>l \<in> set c. lit_true m l)"

text \<open>
  Satisfaction by a total assignment of the variables: a clause holds when one of its
  literals does, a formula when each of its clauses does.
\<close>

definition lit_holds :: "(int \<Rightarrow> bool) \<Rightarrow> int \<Rightarrow> bool" where
  "lit_holds A l = ((l > 0 \<and> A \<bar>l\<bar>) \<or> (l < 0 \<and> \<not> A \<bar>l\<bar>))"

fun clause_holds :: "(int \<Rightarrow> bool) \<Rightarrow> clause \<Rightarrow> bool" where
  "clause_holds A [] = False"
| "clause_holds A (l # c) = (lit_holds A l \<or> clause_holds A c)"

fun satisfies :: "(int \<Rightarrow> bool) \<Rightarrow> formula \<Rightarrow> bool" where
  "satisfies A [] = True"
| "satisfies A (c # cs) = (clause_holds A c \<and> satisfies A cs)"

text \<open>
  One iteration order for concrete runs: the literals of the first clause, then the new
  ones of the second.
\<close>

definition list_union_order :: union_iter where
  "list_union_order c1 c2 = remdups (c1 @ c2)"

lemma set_order_list_union_order: "set_order list_union_order"
  by (simp add: set_order_def list_union_order_def)

subsection \<open>The formula with no clause\<close>

text \<open>
  C7. On the formula with zero clauses the three engines report SAT: the DP engine returns
  \<open>True\<close>, the DPLL engine returns the empty model, the resolution engine returns
  \<open>False\<close>, whatever the iteration orders of the sets are.
\<close>

theorem zero_clauses_all_sat:
  "map_option fst (DPSolver_solve u []) = Some True
   \<and> fst (DPLLSolver_solve []) = Inr (Some Map.empty)
   \<and> map_option fst (ResolutionEngine_solve iter []) = Some False"
proof (intro conjI)
  show "map_option fst (DPSolver_solve u []) = Some True"
    by (simp add: DPSolver_solve_def DPSolver_init_def dp_loop.simps)
  have "propagate [] Map.empty stats_init = (Some [], Map.empty, stats_init)"
    by (simp add: propagate_def unit_loop.simps pure_loop.simps find_pure_def count_all_def)
  then show "fst (DPLLSolver_solve []) = Inr (Some Map.empty)"
    by (simp add: DPLLSolver_solve_def dpll_solve_done)
  show "map_option fst (ResolutionEngine_solve iter []) = Some False"
    by (simp add: ResolutionEngine_solve_def ResolutionEngine_init_def res_loop.simps full_pass_def)
qed

subsection \<open>The scenario \<open>{1, 2}, {-1}\<close>\<close>

text \<open>
  C8, as the spec states it, asks for exactly one unit propagation on the clauses
  \<open>[1, 2]\<close> and \<open>[-1]\<close>. The counter is not 1 when \<^verbatim>\<open>solve\<close> returns.
\<close>

theorem unit_counter_not_one:
  "unit_count (snd (DPLLSolver_solve [[1, 2], [- 1]])) \<noteq> 1"
  by (simp add: DPLLSolver_solve_def dpll_solve.simps propagate_def unit_loop.simps
      pure_loop.simps simplify_def find_pure_def count_all_def stats_init_def)

text \<open>
  C8, amended. On the clauses \<open>[1, 2]\<close> and \<open>[-1]\<close> the DPLL engine returns the model
  that maps variable 1 to false and variable 2 to true, with no decision, no backtrack and
  no pure literal, after two unit propagations: the unit \<open>-1\<close> reduces \<open>[1, 2]\<close> to the
  new unit clause \<open>[2]\<close>, which is propagated in its turn.
\<close>

theorem scenario_two_units:
  "DPLLSolver_solve [[1, 2], [- 1]] =
     (Inr (Some [1 \<mapsto> False, 2 \<mapsto> True]),
      \<lparr>decisions = 0, backtracks = 0, unit_count = 2, pure_count = 0\<rparr>)"
  by (simp add: DPLLSolver_solve_def dpll_solve.simps propagate_def unit_loop.simps
      pure_loop.simps simplify_def find_pure_def count_all_def stats_init_def)

subsection \<open>The pivot is always there\<close>

text \<open>
  C10. If every clause of the input formula is non-empty, \<^verbatim>\<open>DPLLSolver.solve\<close> never
  raises the \<^verbatim>\<open>IndexError\<close> of \<^verbatim>\<open>clauses[0][0]\<close>: the first remaining clause at the
  pivot selection has a literal.
\<close>

theorem pivot_in_bounds:
  "\<forall>c \<in> set cnf. c \<noteq> [] \<Longrightarrow> fst (DPLLSolver_solve cnf) \<noteq> Inl IndexError"
  unfolding DPLLSolver_solve_def by (rule dpll_solve_no_IndexError) simp

theorem pivot_in_bounds_witness:
  "[1, - 2] \<noteq> ([] :: clause) \<and> [2, - 3] \<noteq> ([] :: clause) \<and> [3, - 1] \<noteq> ([] :: clause)
   \<and> fst (DPLLSolver_solve [[1, - 2], [2, - 3], [3, - 1]]) \<noteq> Inl IndexError"
  using pivot_in_bounds [of "[[1, - 2], [2, - 3], [3, - 1]]"] by simp


subsection \<open>Runs on which the engines go wrong\<close>

text \<open>
  C4. The DPLL engine on the clauses \<open>[-1, 2]\<close> and \<open>[1, -2]\<close>: the pivot is the negative
  literal \<open>-1\<close>; the first branch simplifies under \<open>-1\<close> but writes
  \<^verbatim>\<open>next_model[abs(pivot)] = True\<close>. The returned model maps 1 to true and 2 to false,
  and makes no literal of the input clause \<open>[-1, 2]\<close> true.
\<close>

theorem negative_pivot_model_invalid:
  "fst (DPLLSolver_solve [[- 1, 2], [1, - 2]]) = Inr (Some [1 \<mapsto> True, 2 \<mapsto> False])
   \<and> \<not> clause_true [1 \<mapsto> True, 2 \<mapsto> False] [- 1, 2]"
proof
  show "fst (DPLLSolver_solve [[- 1, 2], [1, - 2]]) = Inr (Some [1 \<mapsto> True, 2 \<mapsto> False])"
    by (simp add: DPLLSolver_solve_def dpll_solve.simps propagate_def unit_loop.simps
        pure_loop.simps simplify_def find_pure_def count_all_def count_lit_def stats_init_def)
  show "\<not> clause_true [1 \<mapsto> True, 2 \<mapsto> False] [- 1, 2]"
    by (simp add: clause_true_def lit_true_def)
qed

text \<open>
  C3. The formula whose only clause has zero literals: the DP engine returns \<open>False\<close>,
  but the DPLL engine raises \<^verbatim>\<open>IndexError\<close> at \<^verbatim>\<open>clauses[0][0]\<close> and the resolution
  engine returns \<open>False\<close> (SAT), whatever the iteration orders are.
\<close>

theorem empty_clause_verdicts:
  "map_option fst (DPSolver_solve u [[]]) = Some False
   \<and> fst (DPLLSolver_solve [[]]) = Inl IndexError
   \<and> map_option fst (ResolutionEngine_solve iter [{}]) = Some False"
proof (intro conjI)
  show "map_option fst (DPSolver_solve u [[]]) = Some False"
    by (simp add: DPSolver_solve_def DPSolver_init_def dp_loop.simps)
  have "propagate [[]] Map.empty stats_init = (Some [[]], Map.empty, stats_init)"
    by (simp add: propagate_def unit_loop.simps pure_loop.simps find_pure_def count_all_def)
  then show "fst (DPLLSolver_solve [[]]) = Inl IndexError"
    by (simp add: DPLLSolver_solve_def dpll_solve_IndexError)
  show "map_option fst (ResolutionEngine_solve iter [{}]) = Some False"
    by (simp add: ResolutionEngine_solve_def ResolutionEngine_init_def res_loop.simps
        full_pass_def)
qed

text \<open>
  C5. Elimination of variable 1 from the clauses \<open>[1, -1, 2]\<close>, \<open>[-1]\<close>, \<open>[-2]\<close>
  succeeds: the first clause holds both polarities and goes to \<^verbatim>\<open>pos\<close>, its resolvent
  with \<open>[-1]\<close> is \<open>[2]\<close>. The input is satisfied by the assignment that makes every
  variable false; the result \<open>[-2], [2]\<close> is satisfied by no assignment.
\<close>

theorem eliminate_not_equisatisfiable:
  "fst (eliminate list_union_order 1 (DPSolver_init [[1, - 1, 2], [- 1], [- 2]]))
     = Some [[- 2], [2]]
   \<and> satisfies (\<lambda>v. False) [[1, - 1, 2], [- 1], [- 2]]
   \<and> (\<forall>A. \<not> satisfies A [[- 2], [2]])"
proof (intro conjI)
  show "fst (eliminate list_union_order 1 (DPSolver_init [[1, - 1, 2], [- 1], [- 2]]))
     = Some [[- 2], [2]]"
    by (simp add: eliminate_def DPSolver_init_def resolvent_def list_union_order_def)
  show "satisfies (\<lambda>v. False) [[1, - 1, 2], [- 1], [- 2]]"
    by (simp add: lit_holds_def)
  show "\<forall>A. \<not> satisfies A [[- 2], [2]]"
    by (simp add: lit_holds_def)
qed


subsection \<open>The resolution engine makes one pass\<close>

text \<open>
  The test that ends the \<^verbatim>\<open>while True\<close> loop compares three counts that every
  addition to the pool advances together, so it holds after every pass.
\<close>

definition counts_agree :: "sclause list \<Rightarrow> res_state \<Rightarrow> bool" where
  "counts_agree clauses_initial s =
     (length (pool s) = length clauses_initial + length (derived_indices s)
      \<and> length clauses_initial + length (derived_indices s) = total_count s)"

lemma add_resolvents_counts:
  "counts_agree init s \<Longrightarrow> counts_agree init (snd (add_resolvents cs s))"
proof (induction cs arbitrary: s)
  case Nil
  then show ?case by simp
next
  case (Cons c cs)
  let ?s1 = "s\<lparr>pairs := pairs s + 1\<rparr>"
  let ?s2 = "?s1\<lparr>total_count := total_count ?s1 + 1, pool := pool ?s1 @ [c],
                clauses_seen := insert c (clauses_seen ?s1),
                derived_indices := derived_indices ?s1 @ [total_count ?s1 + 1]\<rparr>"
  from Cons.prems have 1: "counts_agree init ?s1" and 2: "counts_agree init ?s2"
    by (simp_all add: counts_agree_def)
  show ?case
    using Cons.IH [OF 1] Cons.IH [OF 2] 2 by (auto simp: Let_def)
qed

lemma scan_j_counts:
  "counts_agree init s \<Longrightarrow> counts_agree init (snd (scan_j iter i js s))"
proof (induction js arbitrary: s)
  case Nil
  then show ?case by simp
next
  case (Cons j js)
  obtain r s' where a: "add_resolvents (resolve_pair iter (pool s ! i) (pool s ! j)) s = (r, s')"
    by (cases "add_resolvents (resolve_pair iter (pool s ! i) (pool s ! j)) s") auto
  with add_resolvents_counts [OF Cons.prems, of "resolve_pair iter (pool s ! i) (pool s ! j)"]
  have "counts_agree init s'" by simp
  with Cons.IH [of s'] a show ?case by simp
qed

lemma scan_i_counts:
  "counts_agree init s \<Longrightarrow> counts_agree init (snd (scan_i iter n is s))"
proof (induction "is" arbitrary: s)
  case Nil
  then show ?case by simp
next
  case (Cons i "is")
  obtain r s' where a: "scan_j iter i [i + 1 ..< n] s = (r, s')"
    by (cases "scan_j iter i [i + 1 ..< n] s") auto
  with scan_j_counts [OF Cons.prems, of iter i "[i + 1 ..< n]"]
  have "counts_agree init s'" by simp
  with Cons.IH [of s'] a show ?case by simp
qed

lemma full_pass_counts:
  "counts_agree init s \<Longrightarrow> counts_agree init (snd (full_pass iter s))"
  by (simp add: full_pass_def Let_def scan_i_counts)

lemma res_loop_single_pass:
  assumes "counts_agree init s"
  shows "res_loop iter init s = Some (full_pass iter s)"
proof -
  obtain r s' where fp: "full_pass iter s = (r, s')"
    by (cases "full_pass iter s") auto
  with full_pass_counts [OF assms, of iter] have "counts_agree init s'" by simp
  then show ?thesis
    unfolding res_loop.simps [of iter init s] fp by (simp add: counts_agree_def)
qed

lemma solve_single_pass:
  "ResolutionEngine_solve iter cs = Some (full_pass iter (ResolutionEngine_init cs))"
  unfolding ResolutionEngine_solve_def
  by (rule res_loop_single_pass) (simp add: counts_agree_def ResolutionEngine_init_def)

text \<open>
  An empty clause in the input is in \<^verbatim>\<open>clauses_seen\<close> from the start, so no empty
  resolvent is ever new and the engine never returns \<open>True\<close> on such an input.
\<close>

lemma add_resolvents_seen_empty:
  "{} \<in> clauses_seen s \<Longrightarrow>
     \<not> fst (add_resolvents cs s) \<and> {} \<in> clauses_seen (snd (add_resolvents cs s))"
  by (induction cs arbitrary: s) (auto simp: Let_def)

lemma scan_j_seen_empty:
  "{} \<in> clauses_seen s \<Longrightarrow>
     \<not> fst (scan_j iter i js s) \<and> {} \<in> clauses_seen (snd (scan_j iter i js s))"
proof (induction js arbitrary: s)
  case Nil
  then show ?case by simp
next
  case (Cons j js)
  obtain r s' where a: "add_resolvents (resolve_pair iter (pool s ! i) (pool s ! j)) s = (r, s')"
    by (cases "add_resolvents (resolve_pair iter (pool s ! i) (pool s ! j)) s") auto
  with add_resolvents_seen_empty [OF Cons.prems, of "resolve_pair iter (pool s ! i) (pool s ! j)"]
  have "\<not> r" and "{} \<in> clauses_seen s'" by simp_all
  with Cons.IH [of s'] a show ?case by simp
qed

lemma scan_i_seen_empty:
  "{} \<in> clauses_seen s \<Longrightarrow>
     \<not> fst (scan_i iter n is s) \<and> {} \<in> clauses_seen (snd (scan_i iter n is s))"
proof (induction "is" arbitrary: s)
  case Nil
  then show ?case by simp
next
  case (Cons i "is")
  obtain r s' where a: "scan_j iter i [i + 1 ..< n] s = (r, s')"
    by (cases "scan_j iter i [i + 1 ..< n] s") auto
  with scan_j_seen_empty [OF Cons.prems, of iter i "[i + 1 ..< n]"]
  have "\<not> r" and "{} \<in> clauses_seen s'" by simp_all
  with Cons.IH [of s'] a show ?case by simp
qed

lemma empty_input_clause_reported_sat:
  assumes "{} \<in> set cs"
  shows "map_option fst (ResolutionEngine_solve iter cs) = Some False"
proof -
  from assms have "{} \<in> clauses_seen (ResolutionEngine_init cs)"
    by (simp add: ResolutionEngine_init_def)
  then have "\<not> fst (full_pass iter (ResolutionEngine_init cs))"
    by (simp add: full_pass_def Let_def scan_i_seen_empty)
  then show ?thesis by (simp add: solve_single_pass)
qed

text \<open>
  C2. The resolution engine on the clauses \<open>{1, 2}\<close>, \<open>{-1}\<close>, \<open>{-2}\<close>: the first pass
  adds the two new clauses \<open>{2}\<close> and \<open>{1}\<close> to the pool of three, and the engine
  returns \<open>False\<close> (SAT) right after it. The pool it leaves is no fixed point: one more
  pass over it derives the empty clause.
\<close>

theorem returns_sat_after_growing_pass:
  "map_option fst (ResolutionEngine_solve sorted_list_of_set [{1, 2}, {- 1}, {- 2}]) = Some False
   \<and> map_option (pool \<circ> snd) (ResolutionEngine_solve sorted_list_of_set [{1, 2}, {- 1}, {- 2}])
       = Some [{1, 2}, {- 1}, {- 2}, {2}, {1}]
   \<and> map_option (fst \<circ> full_pass sorted_list_of_set \<circ> snd)
         (ResolutionEngine_solve sorted_list_of_set [{1, 2}, {- 1}, {- 2}]) = Some True"
  by code_simp

text \<open>
  C1. On the unsatisfiable clauses \<open>{1, 2}\<close>, \<open>{-1}\<close>, \<open>{-2}\<close> the DP engine returns
  \<open>False\<close> and the DPLL engine \<open>None\<close> (UNSAT), while the resolution engine returns
  \<open>False\<close> (SAT). On the satisfiable clauses \<open>{1, 2}\<close>, \<open>{-1, -2}\<close>, \<open>{-2}\<close> the
  DPLL engine returns a model and the resolution engine \<open>False\<close> (SAT), while the DP
  engine returns \<open>False\<close> (UNSAT).
\<close>

theorem engines_disagree:
  "map_option fst (DPSolver_solve list_union_order [[1, 2], [- 1], [- 2]]) = Some False
   \<and> fst (DPLLSolver_solve [[1, 2], [- 1], [- 2]]) = Inr None
   \<and> map_option fst (ResolutionEngine_solve sorted_list_of_set [{1, 2}, {- 1}, {- 2}]) = Some False
   \<and> map_option fst (DPSolver_solve list_union_order [[1, 2], [- 1, - 2], [- 2]]) = Some False
   \<and> fst (DPLLSolver_solve [[1, 2], [- 1, - 2], [- 2]]) = Inr (Some [2 \<mapsto> False, 1 \<mapsto> True])
   \<and> map_option fst (ResolutionEngine_solve sorted_list_of_set [{1, 2}, {- 1, - 2}, {- 2}])
       = Some False"
proof (intro conjI)
  show "map_option fst (DPSolver_solve list_union_order [[1, 2], [- 1], [- 2]]) = Some False"
    by code_simp
  show "fst (DPLLSolver_solve [[1, 2], [- 1], [- 2]]) = Inr None"
    by (simp add: DPLLSolver_solve_def dpll_solve.simps propagate_def unit_loop.simps
        pure_loop.simps simplify_def find_pure_def count_all_def count_lit_def stats_init_def)
  show "map_option fst (ResolutionEngine_solve sorted_list_of_set [{1, 2}, {- 1}, {- 2}])
      = Some False"
    by code_simp
  show "map_option fst (DPSolver_solve list_union_order [[1, 2], [- 1, - 2], [- 2]]) = Some False"
    by code_simp
  show "fst (DPLLSolver_solve [[1, 2], [- 1, - 2], [- 2]]) = Inr (Some [2 \<mapsto> False, 1 \<mapsto> True])"
    by (simp add: DPLLSolver_solve_def dpll_solve.simps propagate_def unit_loop.simps
        pure_loop.simps simplify_def find_pure_def count_all_def count_lit_def stats_init_def)
  show "map_option fst (ResolutionEngine_solve sorted_list_of_set [{1, 2}, {- 1, - 2}, {- 2}])
       = Some False"
    by code_simp
qed


subsection \<open>The DP loop terminates\<close>

text \<open>The variables of a formula: the magnitudes of its literals.\<close>

definition fvars :: "formula \<Rightarrow> int set" where
  "fvars cs = abs ` \<Union> (set ` set cs)"

lemma finite_fvars: "finite (fvars cs)"
  by (simp add: fvars_def)

lemma split_clauses_eq:
  "split_clauses var cs (pos, neg, rest) =
     (pos @ filter (\<lambda>c. var \<in> set c) cs,
      neg @ filter (\<lambda>c. var \<notin> set c \<and> - var \<in> set c) cs,
      rest @ filter (\<lambda>c. var \<notin> set c \<and> - var \<notin> set c) cs)"
  by (induction cs arbitrary: pos neg rest) auto

lemma resolve_loop_Some:
  "resolve_loop u var ps acc n = (Some new, n')
     \<Longrightarrow> new = acc @ map (\<lambda>(c1, c2). resolvent u var c1 c2) ps
         \<and> n' = n + length ps \<and> (\<forall>(c1, c2) \<in> set ps. resolvent u var c1 c2 \<noteq> [])"
proof (induction ps arbitrary: acc n)
  case Nil
  then show ?case by simp
next
  case (Cons p ps)
  obtain c1 c2 where p: "p = (c1, c2)" by (cases p)
  show ?case
  proof (cases "resolvent u var c1 c2 = []")
    case True
    with Cons.prems p show ?thesis by simp
  next
    case False
    with Cons.prems p
    have "resolve_loop u var ps (acc @ [resolvent u var c1 c2]) (n + 1) = (Some new, n')"
      by (simp add: Let_def)
    from Cons.IH [OF this] False p show ?thesis by simp
  qed
qed

text \<open>What a successful \<^verbatim>\<open>_eliminate\<close> leaves as clause list.\<close>

definition eliminated :: "union_iter \<Rightarrow> int \<Rightarrow> formula \<Rightarrow> formula" where
  "eliminated u var cs =
     filter (\<lambda>c. var \<notin> set c \<and> - var \<notin> set c) cs
     @ map (\<lambda>(c1, c2). resolvent u var c1 c2)
         (List.product (filter (\<lambda>c. var \<in> set c) cs)
            (filter (\<lambda>c. var \<notin> set c \<and> - var \<in> set c) cs))"

lemma eliminate_Some:
  assumes "eliminate u var s = (Some cs, s')"
  shows "cs = eliminated u var (dp_clauses s)" and "dp_clauses s' = cs"
    and "vars_eliminated s' = vars_eliminated s + 1"
proof -
  let ?pos = "filter (\<lambda>c. var \<in> set c) (dp_clauses s)"
  let ?neg = "filter (\<lambda>c. var \<notin> set c \<and> - var \<in> set c) (dp_clauses s)"
  let ?rest = "filter (\<lambda>c. var \<notin> set c \<and> - var \<notin> set c) (dp_clauses s)"
  obtain r n where rl: "resolve_loop u var (List.product ?pos ?neg) [] (resolvents s) = (r, n)"
    by (cases "resolve_loop u var (List.product ?pos ?neg) [] (resolvents s)") auto
  from assms rl obtain new where r: "r = Some new" and cs: "cs = ?rest @ new"
    and s': "s' = s\<lparr>dp_clauses := ?rest @ new, resolvents := n,
                    vars_eliminated := vars_eliminated s + 1\<rparr>"
    by (cases r) (auto simp: eliminate_def split_clauses_eq)
  from resolve_loop_Some [OF rl [unfolded r]]
  have "new = map (\<lambda>(c1, c2). resolvent u var c1 c2) (List.product ?pos ?neg)" by simp
  with cs show "cs = eliminated u var (dp_clauses s)" by (simp add: eliminated_def)
  from cs s' show "dp_clauses s' = cs" by simp
  from s' show "vars_eliminated s' = vars_eliminated s + 1" by simp
qed

lemma set_resolvent:
  "set_order u \<Longrightarrow> set (resolvent u var c1 c2) = (set c1 \<union> set c2) - {var, - var}"
  by (auto simp: resolvent_def set_order_def)

lemma eliminated_no_var:
  assumes "set_order u" and "c \<in> set (eliminated u var cs)"
  shows "var \<notin> set c" and "- var \<notin> set c"
  using assms by (auto simp: eliminated_def set_resolvent)

lemma eliminated_lits:
  assumes "set_order u" and "c \<in> set (eliminated u var cs)" and "l \<in> set c"
  shows "l \<in> \<Union> (set ` set cs)"
  using assms by (auto simp: eliminated_def set_resolvent)

lemma fvars_eliminated:
  assumes "set_order u"
  shows "fvars (eliminated u var cs) \<subseteq> fvars cs - {\<bar>var\<bar>}"
proof
  fix x assume "x \<in> fvars (eliminated u var cs)"
  then obtain c l where c: "c \<in> set (eliminated u var cs)" and l: "l \<in> set c" and x: "x = \<bar>l\<bar>"
    by (auto simp: fvars_def)
  from eliminated_lits [OF assms c l] x have "x \<in> fvars cs" by (auto simp: fvars_def)
  moreover from eliminated_no_var [OF assms c] l have "l \<noteq> var" and "l \<noteq> - var" by auto
  then have "\<bar>l\<bar> \<noteq> \<bar>var\<bar>" by linarith
  ultimately show "x \<in> fvars cs - {\<bar>var\<bar>}" using x by simp
qed

lemma choose_var_Some:
  "choose_var cs = Some v \<Longrightarrow> v \<in> fvars cs \<and> \<bar>v\<bar> = v"
proof (induction cs)
  case Nil
  then show ?case by simp
next
  case (Cons c cs)
  show ?case
  proof (cases "c = []")
    case True
    with Cons have "v \<in> fvars cs \<and> \<bar>v\<bar> = v" by simp
    then show ?thesis by (auto simp: fvars_def)
  next
    case False
    with Cons.prems have v: "v = \<bar>c ! 0\<bar>" by simp
    from False have "c ! 0 \<in> set c" by simp
    with v show ?thesis by (auto simp: fvars_def)
  qed
qed

text \<open>
  One round of the loop that goes on: the chosen variable is gone from the new clause
  list, no variable is new in it, and the number of variables has gone down.
\<close>

lemma eliminate_fewer_vars:
  assumes "set_order u" and "choose_var (dp_clauses s) = Some v"
    and "eliminate u v s = (Some cs, s')"
  shows "v \<notin> fvars (dp_clauses s')" and "fvars (dp_clauses s') \<subseteq> fvars (dp_clauses s)"
    and "card (fvars (dp_clauses s')) < card (fvars (dp_clauses s))"
proof -
  from eliminate_Some [OF assms(3)] have cs: "dp_clauses s' = eliminated u v (dp_clauses s)"
    by simp
  from choose_var_Some [OF assms(2)] have v: "v \<in> fvars (dp_clauses s)" "\<bar>v\<bar> = v" by simp_all
  from fvars_eliminated [OF assms(1), of v "dp_clauses s"] v(2)
  have sub: "fvars (dp_clauses s') \<subseteq> fvars (dp_clauses s) - {v}" by (simp add: cs)
  then show "v \<notin> fvars (dp_clauses s')" and "fvars (dp_clauses s') \<subseteq> fvars (dp_clauses s)"
    by auto
  from sub v(1) have "fvars (dp_clauses s') \<subset> fvars (dp_clauses s)" by auto
  then show "card (fvars (dp_clauses s')) < card (fvars (dp_clauses s))"
    by (rule psubset_card_mono [OF finite_fvars])
qed

lemma eliminate_None:
  assumes "eliminate u var s = (None, s')"
  shows "vars_eliminated s' = vars_eliminated s" and "dp_clauses s' = dp_clauses s"
  using assms by (auto simp: eliminate_def split: prod.splits option.splits)

lemma dp_loop_returns:
  assumes "set_order u"
  shows "\<exists>verdict s'. dp_loop u s = Some (verdict, s')
           \<and> vars_eliminated s' \<le> vars_eliminated s + card (fvars (dp_clauses s))"
proof (induction "card (fvars (dp_clauses s))" arbitrary: s rule: less_induct)
  case less
  show ?case
  proof (cases "dp_clauses s = [] \<or> (\<exists>c \<in> set (dp_clauses s). length c = 0)")
    case True
    then show ?thesis by (auto simp: dp_loop.simps [of u s])
  next
    case False
    show ?thesis
    proof (cases "choose_var (dp_clauses s)")
      case None
      with False show ?thesis by (auto simp: dp_loop.simps [of u s])
    next
      case (Some v)
      obtain r s1 where el: "eliminate u v s = (r, s1)" by (cases "eliminate u v s") auto
      show ?thesis
      proof (cases r)
        case None
        with False Some el have "dp_loop u s = Some (False, s1)"
          by (auto simp: dp_loop.simps [of u s])
        with eliminate_None(1) [OF el [unfolded None]] show ?thesis by auto
      next
        case (Some cs)
        note el' = el [unfolded Some]
        note fewer = eliminate_fewer_vars(3) [OF assms \<open>choose_var (dp_clauses s) = Some v\<close> el']
        from fewer obtain verdict s' where run: "dp_loop u s1 = Some (verdict, s')"
          and le: "vars_eliminated s' \<le> vars_eliminated s1 + card (fvars (dp_clauses s1))"
          using less by blast
        from False \<open>choose_var (dp_clauses s) = Some v\<close> el Some
        have "dp_loop u s = dp_loop u s1" by (auto simp: dp_loop.simps [of u s])
        moreover from le fewer eliminate_Some(3) [OF el']
        have "vars_eliminated s' \<le> vars_eliminated s + card (fvars (dp_clauses s))" by simp
        ultimately show ?thesis using run by simp
      qed
    qed
  qed
qed

text \<open>
  C6. For every input formula \<^verbatim>\<open>DPSolver.solve\<close> returns, with the verdict \<open>True\<close> or
  \<open>False\<close>, whatever order Python iterates the sets of literals in: every round of the
  loop that does not return removes the chosen variable for good, so the loop has
  eliminated at most as many variables as the input has when it returns.
\<close>

theorem DPSolver_solve_terminates:
  "set_order u \<Longrightarrow>
     \<exists>verdict s'. DPSolver_solve u cnf = Some (verdict, s') \<and> vars_eliminated s' \<le> card (fvars cnf)"
  unfolding DPSolver_solve_def using dp_loop_returns [of u "DPSolver_init cnf"]
  by (simp add: DPSolver_init_def)

theorem DPSolver_solve_terminates_witness:
  "set_order list_union_order
   \<and> (\<exists>verdict s'. DPSolver_solve list_union_order [[1, 2], [- 1, 2], [- 2]] = Some (verdict, s')
         \<and> vars_eliminated s' \<le> card (fvars [[1, 2], [- 1, 2], [- 2]]))"
  using DPSolver_solve_terminates [OF set_order_list_union_order, of "[[1, 2], [- 1, 2], [- 2]]"]
    set_order_list_union_order by simp


subsection \<open>Elimination without clauses of both polarities\<close>


lemma clause_holds_iff: "clause_holds A c \<longleftrightarrow> (\<exists>l \<in> set c. lit_holds A l)"
  by (induction c) auto

lemma satisfies_iff: "satisfies A cs \<longleftrightarrow> (\<forall>c \<in> set cs. clause_holds A c)"
  by (induction cs) auto

lemma lit_holds_other:
  "l \<noteq> v \<Longrightarrow> l \<noteq> - v \<Longrightarrow> lit_holds (A(v := b)) l = lit_holds A l"
  by (auto simp: lit_holds_def)

lemma lit_holds_var: "0 < v \<Longrightarrow> lit_holds A v = A v" and lit_holds_neg_var: "0 < v \<Longrightarrow> lit_holds A (- v) = (\<not> A v)"
  by (auto simp: lit_holds_def)

lemma set_eliminated:
  assumes "set_order u"
  shows "set (eliminated u v cs) =
     {c \<in> set cs. v \<notin> set c \<and> - v \<notin> set c}
     \<union> {resolvent u v c1 c2 | c1 c2. c1 \<in> set cs \<and> v \<in> set c1 \<and> c2 \<in> set cs \<and> v \<notin> set c2 \<and> - v \<in> set c2}"
  by (auto simp: eliminated_def)

text \<open>
  On clause lists in which no clause holds both polarities of the variable,
  elimination keeps satisfiability, in both directions.
\<close>

lemma eliminated_equisatisfiable:
  assumes u: "set_order u" and v: "0 < v"
    and taut: "\<forall>c \<in> set cs. \<not> (v \<in> set c \<and> - v \<in> set c)"
  shows "(\<exists>A. satisfies A (eliminated u v cs)) \<longleftrightarrow> (\<exists>A. satisfies A cs)"
proof
  assume "\<exists>A. satisfies A cs"
  then obtain A where A: "\<forall>c \<in> set cs. \<exists>l \<in> set c. lit_holds A l"
    by (auto simp: satisfies_iff clause_holds_iff)
  have "\<exists>l \<in> set c. lit_holds A l" if c: "c \<in> set (eliminated u v cs)" for c
  proof -
    from c consider "c \<in> set cs"
      | c1 c2 where "c = resolvent u v c1 c2" "c1 \<in> set cs" "v \<in> set c1"
          "c2 \<in> set cs" "v \<notin> set c2" "- v \<in> set c2"
      unfolding set_eliminated [OF u] by blast
    then show ?thesis
    proof cases
      case 1
      with A show ?thesis by blast
    next
      case 2
      from 2(2,3) taut have nv: "- v \<notin> set c1" by blast
      show ?thesis
      proof (cases "A v")
        case True
        from A 2(4) obtain l where l: "l \<in> set c2" "lit_holds A l" by blast
        with True v 2(5) have "l \<noteq> - v" "l \<noteq> v" by (auto simp: lit_holds_neg_var)
        with l show ?thesis unfolding 2(1) set_resolvent [OF u] by blast
      next
        case False
        from A 2(2) obtain l where l: "l \<in> set c1" "lit_holds A l" by blast
        with False v nv have "l \<noteq> v" "l \<noteq> - v" by (auto simp: lit_holds_var)
        with l show ?thesis unfolding 2(1) set_resolvent [OF u] by blast
      qed
    qed
  qed
  then show "\<exists>A. satisfies A (eliminated u v cs)"
    by (auto simp: satisfies_iff clause_holds_iff)
next
  assume "\<exists>A. satisfies A (eliminated u v cs)"
  then obtain A where A: "\<forall>c \<in> set (eliminated u v cs). \<exists>l \<in> set c. lit_holds A l"
    by (auto simp: satisfies_iff clause_holds_iff)
  have rest: "\<exists>l \<in> set c. lit_holds (A(v := b)) l"
    if "c \<in> set cs" "v \<notin> set c" "- v \<notin> set c" for c b
  proof -
    from that have "c \<in> set (eliminated u v cs)" unfolding set_eliminated [OF u] by blast
    with A obtain l where l: "l \<in> set c" "lit_holds A l" by blast
    with that have "l \<noteq> v" "l \<noteq> - v" by auto
    with l show ?thesis by (intro bexI [of _ l]) (simp_all add: lit_holds_other)
  qed
  let ?outside = "\<lambda>c. \<exists>l \<in> set c. l \<noteq> v \<and> l \<noteq> - v \<and> lit_holds A l"
  show "\<exists>A. satisfies A cs"
  proof (cases "\<forall>c1 \<in> set cs. v \<in> set c1 \<longrightarrow> ?outside c1")
    case True
    have "\<exists>l \<in> set c. lit_holds (A(v := False)) l" if c: "c \<in> set cs" for c
    proof (cases "v \<in> set c")
      case True
      with \<open>\<forall>c1 \<in> set cs. v \<in> set c1 \<longrightarrow> ?outside c1\<close> c
      obtain l where "l \<in> set c" "l \<noteq> v" "l \<noteq> - v" "lit_holds A l" by blast
      then show ?thesis by (intro bexI [of _ l]) (simp_all add: lit_holds_other)
    next
      case False
      show ?thesis
      proof (cases "- v \<in> set c")
        case True
        with v show ?thesis by (intro bexI [of _ "- v"]) (simp_all add: lit_holds_neg_var)
      next
        case False
        from c \<open>v \<notin> set c\<close> False show ?thesis by (rule rest)
      qed
    qed
    then show ?thesis by (auto simp: satisfies_iff clause_holds_iff)
  next
    case False
    then obtain c1 where c1: "c1 \<in> set cs" "v \<in> set c1" "\<not> ?outside c1" by blast
    have "\<exists>l \<in> set c. lit_holds (A(v := True)) l" if c: "c \<in> set cs" for c
    proof (cases "v \<in> set c")
      case True
      with v show ?thesis by (intro bexI [of _ v]) (simp_all add: lit_holds_var)
    next
      case nv: False
      show ?thesis
      proof (cases "- v \<in> set c")
        case True
        with c c1 nv have "resolvent u v c1 c \<in> set (eliminated u v cs)"
          unfolding set_eliminated [OF u] by blast
        with A obtain l where l: "l \<in> set (resolvent u v c1 c)" "lit_holds A l" by blast
        then have lv: "l \<noteq> v" "l \<noteq> - v" and "l \<in> set c1 \<or> l \<in> set c"
          unfolding set_resolvent [OF u] by auto
        with c1(3) l(2) have "l \<in> set c" by blast
        with l(2) lv show ?thesis by (intro bexI [of _ l]) (simp_all add: lit_holds_other)
      next
        case False
        from c nv False show ?thesis by (rule rest)
      qed
    qed
    then show ?thesis by (auto simp: satisfies_iff clause_holds_iff)
  qed
qed

lemma eliminate_equisatisfiable:
  assumes "set_order u" and "0 < v"
    and "\<forall>c \<in> set (dp_clauses s). \<not> (v \<in> set c \<and> - v \<in> set c)"
    and "eliminate u v s = (Some cs', s')"
  shows "(\<exists>A. satisfies A cs') \<longleftrightarrow> (\<exists>A. satisfies A (dp_clauses s))"
  unfolding eliminate_Some(1) [OF assms(4)] using assms(1-3) by (rule eliminated_equisatisfiable)

subsection \<open>Resolvents of the resolution engine\<close>

text \<open>
  Whatever the iteration order, \<^verbatim>\<open>_resolve_pair\<close> yields the clauses
  \<open>(left - {l}) \<union> (right - {-l})\<close> for the literals \<open>l\<close> of \<open>left\<close> whose negation is in
  \<open>right\<close>.
\<close>

lemma set_resolve_pair:
  assumes "iter_order iter" and "finite left"
  shows "set (resolve_pair iter left right)
     = {(left - {l}) \<union> (right - {- l}) | l. l \<in> left \<and> - l \<in> right}"
  using assms by (auto simp: resolve_pair_def iter_order_def)

section \<open>The engines on a store of list objects\<close>

text \<open>
  Python lists are objects: two names can hold the same list, and \<^verbatim>\<open>append\<close> changes
  it for both. To say that an engine leaves the caller's lists alone, the lists live in a
  store: a list of objects, an address being an index into it. An object is a list of
  literals (a clause) or a list of addresses of clauses (a formula). Creating a list puts a
  new object at the end of the store.
\<close>

datatype pyobj = Ints "int list" | Refs "nat list"

type_synonym store = "pyobj list"

definition ints_of :: "store \<Rightarrow> nat \<Rightarrow> int list" where
  "ints_of h a = (case h ! a of Ints xs \<Rightarrow> xs | Refs rs \<Rightarrow> [])"

definition refs_of :: "store \<Rightarrow> nat \<Rightarrow> nat list" where
  "refs_of h a = (case h ! a of Refs rs \<Rightarrow> rs | Ints xs \<Rightarrow> [])"

definition formula_at :: "store \<Rightarrow> nat \<Rightarrow> formula" where
  "formula_at h f = map (ints_of h) (refs_of h f)"

definition new_ints :: "int list \<Rightarrow> store \<Rightarrow> nat \<times> store" where
  "new_ints xs h = (length h, h @ [Ints xs])"

definition new_refs :: "nat list \<Rightarrow> store \<Rightarrow> nat \<times> store" where
  "new_refs rs h = (length h, h @ [Refs rs])"

text \<open>\<^verbatim>\<open>x.append(r)\<close> for the list of clauses at address \<open>a\<close>: the object is changed in place.\<close>

definition append_ref :: "nat \<Rightarrow> nat \<Rightarrow> store \<Rightarrow> store" where
  "append_ref a r h = h[a := Refs (refs_of h a @ [r])]"

text \<open>A formula in the store: a list of addresses of clauses, all of them in the store.\<close>

definition wf_formula :: "store \<Rightarrow> nat \<Rightarrow> bool" where
  "wf_formula h f =
     (f < length h \<and>
      (\<exists>rs. h ! f = Refs rs \<and> (\<forall>r \<in> set rs. r < length h \<and> (\<exists>xs. h ! r = Ints xs))))"

lemma ints_of_append: "a < length h \<Longrightarrow> ints_of (h @ ext) a = ints_of h a"
  by (simp add: ints_of_def nth_append)

lemma refs_of_append: "a < length h \<Longrightarrow> refs_of (h @ ext) a = refs_of h a"
  by (simp add: refs_of_def nth_append)

lemma wf_formula_refs: "wf_formula h f \<Longrightarrow> r \<in> set (refs_of h f) \<Longrightarrow> r < length h"
  by (auto simp: wf_formula_def refs_of_def)

lemma formula_at_append: "wf_formula h f \<Longrightarrow> formula_at (h @ ext) f = formula_at h f"
  by (auto simp: formula_at_def wf_formula_def refs_of_def nth_append ints_of_def)

lemma wf_formula_append: "wf_formula h f \<Longrightarrow> wf_formula (h @ ext) f"
  by (auto simp: wf_formula_def nth_append)

text \<open>
  What a function leaves in the store for its result: a formula at the returned address
  that is the result of the function on lists, or no address when that result is
  \<open>None\<close>.
\<close>

definition holds_formula :: "store \<Rightarrow> nat \<Rightarrow> formula \<Rightarrow> bool" where
  "holds_formula h a cs = (wf_formula h a \<and> formula_at h a = cs)"

definition holds_result :: "store \<Rightarrow> nat option \<Rightarrow> formula option \<Rightarrow> bool" where
  "holds_result h r_h r =
     (case r of None \<Rightarrow> r_h = None | Some cs \<Rightarrow> (\<exists>a. r_h = Some a \<and> holds_formula h a cs))"

text \<open>The addresses of \<open>k\<close> objects created one after the other, the first at \<open>n\<close>.\<close>

definition block :: "nat \<Rightarrow> nat \<Rightarrow> nat list" where
  "block n k = [n ..< n + k]"

lemma block_0 [simp]: "block n 0 = []"
  by (simp add: block_def)

lemma length_block [simp]: "length (block n k) = k"
  by (simp add: block_def)

lemma block_snoc: "block n k @ [n + k] = block n (Suc k)"
  by (simp add: block_def)

lemma set_block: "set (block n k) = {n ..< n + k}"
  by (simp add: block_def)

lemma fresh_block:
  "map (ints_of (pre @ map Ints xss @ post)) (block (length pre) (length xss)) = xss"
proof (rule nth_equalityI)
  show "length (map (ints_of (pre @ map Ints xss @ post)) (block (length pre) (length xss)))
          = length xss" by simp
next
  fix i assume "i < length (map (ints_of (pre @ map Ints xss @ post))
      (block (length pre) (length xss)))"
  then have i: "i < length xss" by simp
  then have "(pre @ map Ints xss @ post) ! (length pre + i) = Ints (xss ! i)"
    by (simp add: nth_append)
  with i show "map (ints_of (pre @ map Ints xss @ post)) (block (length pre) (length xss)) ! i
      = xss ! i"
    by (simp add: ints_of_def block_def)
qed

text \<open>A fresh formula: a list object that lists the clause objects of a block.\<close>

lemma fresh_formula:
  assumes "h' = pre @ map Ints xss @ post" and "n < length h'"
    and "h' ! n = Refs (block (length pre) (length xss))"
  shows "holds_formula h' n xss"
proof -
  have "wf_formula h' n"
    unfolding wf_formula_def using assms by (auto simp: nth_append set_block)
  moreover have "formula_at h' n = xss"
    using assms(3) fresh_block [of pre xss post] by (simp add: formula_at_def refs_of_def assms(1))
  ultimately show ?thesis by (simp add: holds_formula_def)
qed

subsection \<open>The copy \<^verbatim>\<open>[c[:] for c in clauses]\<close>\<close>

fun copy_clauses :: "nat list \<Rightarrow> nat list \<Rightarrow> store \<Rightarrow> nat list \<times> store" where
  "copy_clauses [] acc h = (acc, h)"
| "copy_clauses (c # cs) acc h =
     (case new_ints (ints_of h c) h of (a, h') \<Rightarrow> copy_clauses cs (acc @ [a]) h')"

definition copy_formula :: "nat \<Rightarrow> store \<Rightarrow> nat \<times> store" where
  "copy_formula f h =
     (case copy_clauses (refs_of h f) [] h of (rs, h') \<Rightarrow> new_refs rs h')"

lemma copy_clauses_shape:
  "\<forall>c \<in> set cs. c < length h \<Longrightarrow>
     copy_clauses cs (block (length h) (length done)) (h @ map Ints done) =
       (block (length h) (length (done @ map (ints_of h) cs)),
        h @ map Ints (done @ map (ints_of h) cs))"
proof (induction cs arbitrary: "done")
  case Nil
  show ?case by simp
next
  case (Cons c cs)
  from Cons.prems have c: "c < length h" and cs: "\<forall>c \<in> set cs. c < length h" by simp_all
  from c have "new_ints (ints_of (h @ map Ints done) c) (h @ map Ints done)
      = (length h + length done, h @ map Ints (done @ [ints_of h c]))"
    by (simp add: new_ints_def ints_of_append)
  with Cons.IH [OF cs, of "done @ [ints_of h c]"] show ?case
    by (simp add: block_snoc)
qed

lemma copy_formula_shape:
  assumes "holds_formula h f cs"
  shows "\<exists>a ext. copy_formula f h = (a, h @ ext) \<and> holds_formula (h @ ext) a cs"
proof -
  let ?rs = "refs_of h f"
  let ?n = "length h"
  from assms have wf: "wf_formula h f" and cs: "cs = map (ints_of h) ?rs"
    by (simp_all add: holds_formula_def formula_at_def)
  let ?h' = "h @ map Ints cs @ [Refs (block ?n (length cs))]"
  from wf have below: "\<forall>c \<in> set ?rs. c < length h" by (auto dest: wf_formula_refs)
  from copy_clauses_shape [OF below, of "[]"]
  have cc: "copy_clauses ?rs [] h = (block ?n (length cs), h @ map Ints cs)"
    by (simp add: cs)
  have run: "copy_formula f h = (?n + length cs, ?h')"
    by (simp add: copy_formula_def cc new_refs_def)
  have "holds_formula ?h' (?n + length cs) cs"
    by (rule fresh_formula [OF refl]) (simp_all add: nth_append)
  with run show ?thesis by (intro exI [of _ "?n + length cs"] exI [of _ "map Ints cs @ [Refs (block ?n (length cs))]"]) simp
qed

subsection \<open>A list under construction and the clauses made for it\<close>

text \<open>
  The loops of the engines build a new list object and, after it in the store, the new
  clause objects it lists: the store \<open>building h done\<close> when the loop started from the
  store \<open>h\<close> and has made the clauses \<open>done\<close> so far.
\<close>

definition building :: "store \<Rightarrow> formula \<Rightarrow> store" where
  "building h done = h @ Refs (block (Suc (length h)) (length done)) # map Ints done"

lemma building_Nil: "building h [] = h @ [Refs []]"
  by (simp add: building_def)

lemma building_read: "c < length h \<Longrightarrow> ints_of (building h done) c = ints_of h c"
  by (simp add: building_def ints_of_append)

lemma building_add:
  "new_ints xs (building h done) = (a, h1) \<Longrightarrow>
     ints_of h1 a = xs \<and> append_ref (length h) a h1 = building h (done @ [xs])
     \<and> (\<exists>ext. h1 = h @ ext)"
proof -
  assume "new_ints xs (building h done) = (a, h1)"
  then have a: "a = Suc (length h) + length done"
    and h1: "h1 = h @ Refs (block (Suc (length h)) (length done)) # map Ints (done @ [xs])"
    by (auto simp: new_ints_def building_def)
  have 1: "ints_of h1 a = xs"
    unfolding h1 a by (simp add: ints_of_def nth_append)
  have "block (Suc (length h)) (length done) @ [Suc (length h + length done)]
      = block (Suc (length h)) (Suc (length done))"
    using block_snoc [of "Suc (length h)" "length done"] by simp
  then have 2: "append_ref (length h) a h1 = building h (done @ [xs])"
    unfolding h1 a building_def
    by (simp add: append_ref_def refs_of_def list_update_append)
  from 1 2 h1 show ?thesis by simp
qed

lemma building_holds: "holds_formula (building h done @ post) (length h) done"
proof -
  have "holds_formula ((h @ [Refs (block (Suc (length h)) (length done))]) @ map Ints done @ post)
      (length h) done"
    by (rule fresh_formula [OF refl]) (simp_all add: nth_append)
  then show ?thesis by (simp add: building_def)
qed

lemma conflict_Cons:
  "conflict (c # cs) lit
     \<longleftrightarrow> (lit \<notin> set c \<and> - lit \<in> set c \<and> filter (\<lambda>x. x \<noteq> - lit) c = []) \<or> conflict cs lit"
  by (auto simp: conflict_def)

lemma simplified_Cons:
  "simplified (c # cs) lit =
     (if lit \<in> set c then simplified cs lit
      else filter (\<lambda>x. x \<noteq> - lit) c # simplified cs lit)"
  by (simp add: simplified_def)

subsection \<open>\<^verbatim>\<open>_simplify\<close> on the store\<close>

text \<open>
  The loop of \<^verbatim>\<open>_simplify\<close>; \<open>new_formula\<close> is the address of the list under
  construction. The comprehension for \<^verbatim>\<open>reduced\<close> and the copy \<^verbatim>\<open>clause[:]\<close>
  create a clause object each; \<^verbatim>\<open>new_formula.append\<close> writes to the new list. The
  boolean is false when the loop left by \<^verbatim>\<open>return None\<close>.
\<close>

fun simplify_h :: "nat list \<Rightarrow> int \<Rightarrow> nat \<Rightarrow> store \<Rightarrow> bool \<times> store" where
  "simplify_h [] lit new_formula h = (True, h)"
| "simplify_h (c # cs) lit new_formula h =
     (if lit \<in> set (ints_of h c) then simplify_h cs lit new_formula h
      else if - lit \<in> set (ints_of h c) then
        (case new_ints (filter (\<lambda>x. x \<noteq> - lit) (ints_of h c)) h of
           (reduced, h1) \<Rightarrow>
             if ints_of h1 reduced = [] then (False, h1)
             else simplify_h cs lit new_formula (append_ref new_formula reduced h1))
      else
        (case new_ints (ints_of h c) h of
           (copy, h1) \<Rightarrow> simplify_h cs lit new_formula (append_ref new_formula copy h1)))"

definition simplify_obj :: "nat \<Rightarrow> int \<Rightarrow> store \<Rightarrow> nat option \<times> store" where
  "simplify_obj f lit h =
     (case new_refs [] h of
        (new_formula, h1) \<Rightarrow>
          (case simplify_h (refs_of h1 f) lit new_formula h1 of
             (ok, h2) \<Rightarrow> (if ok then Some new_formula else None, h2)))"

lemma simplify_h_shape:
  assumes "\<forall>c \<in> set cs. c < length h"
  shows "\<exists>ext. simplify_h cs lit (length h) (building h done)
               = (\<not> conflict (map (ints_of h) cs) lit, h @ ext)
           \<and> (\<not> conflict (map (ints_of h) cs) lit \<longrightarrow>
                h @ ext = building h (done @ simplified (map (ints_of h) cs) lit))"
  using assms
proof (induction cs arbitrary: "done")
  case Nil
  show ?case by (simp add: conflict_def simplified_def building_def)
next
  case (Cons c cs)
  from Cons.prems have c: "c < length h" and cs: "\<forall>c \<in> set cs. c < length h" by simp_all
  from c have rd: "ints_of (building h done) c = ints_of h c" by (rule building_read)
  show ?case
  proof (cases "lit \<in> set (ints_of h c)")
    case True
    with Cons.IH [OF cs, of "done"] rd show ?thesis
      by (simp add: conflict_Cons simplified_Cons)
  next
    case False
    note notin = this
    let ?red = "filter (\<lambda>x. x \<noteq> - lit) (ints_of h c)"
    obtain a h1 where ni: "new_ints ?red (building h done) = (a, h1)"
      by (cases "new_ints ?red (building h done)") auto
    note add = building_add [OF ni]
    show ?thesis
    proof (cases "- lit \<in> set (ints_of h c)")
      case True
      show ?thesis
      proof (cases "?red = []")
        case True
        with notin \<open>- lit \<in> set (ints_of h c)\<close> rd ni add show ?thesis
          by (auto simp: conflict_Cons)
      next
        case False
        from Cons.IH [OF cs, of "done @ [?red]"] False notin \<open>- lit \<in> set (ints_of h c)\<close> rd ni add
        show ?thesis
          by (simp add: conflict_Cons simplified_Cons)
      qed
    next
      case False
      then have same: "?red = ints_of h c"
        by (auto simp: filter_id_conv)
      from Cons.IH [OF cs, of "done @ [ints_of h c]"] False notin rd ni add same
      show ?thesis
        by (simp add: conflict_Cons simplified_Cons)
    qed
  qed
qed

lemma holds_formula_append: "holds_formula h a cs \<Longrightarrow> holds_formula (h @ ext) a cs"
  by (simp add: holds_formula_def wf_formula_append formula_at_append)

lemma holds_formula_refs:
  assumes "holds_formula h f cs"
  shows "cs = map (ints_of h) (refs_of h f)" and "\<forall>c \<in> set (refs_of h f). c < length h"
    and "f < length h"
  using assms by (auto simp: holds_formula_def formula_at_def wf_formula_def refs_of_def)

lemma simplify_obj_shape:
  assumes "holds_formula h f cs"
  shows "\<exists>r ext. simplify_obj f lit h = (r, h @ ext) \<and> holds_result (h @ ext) r (simplify cs lit)"
proof -
  let ?n = "length h"
  let ?rs = "refs_of h f"
  note hf = holds_formula_refs [OF assms]
  from simplify_h_shape [OF hf(2), of lit "[]"]
  obtain ext where run: "simplify_h ?rs lit ?n (h @ [Refs []]) = (\<not> conflict cs lit, h @ ext)"
    and ext: "\<not> conflict cs lit \<Longrightarrow> h @ ext = building h (simplified cs lit)"
    unfolding hf(1) [symmetric] by (auto simp: building_Nil)
  have so: "simplify_obj f lit h = (if \<not> conflict cs lit then Some ?n else None, h @ ext)"
    using hf(3) run by (simp add: simplify_obj_def new_refs_def refs_of_append)
  show ?thesis
  proof (cases "conflict cs lit")
    case True
    with so show ?thesis by (auto simp: holds_result_def simplify_eq)
  next
    case False
    from building_holds [of h "simplified cs lit" "[]"] ext [OF False]
    have "holds_formula (h @ ext) ?n (simplified cs lit)" by simp
    with False so show ?thesis
      by (auto simp: holds_result_def simplify_eq)
  qed
qed


subsection \<open>\<^verbatim>\<open>_propagate\<close> on the store\<close>

text \<open>
  \<^verbatim>\<open>_find_unit\<close> and \<^verbatim>\<open>_find_pure\<close> only read the clauses; the dict \<^verbatim>\<open>model\<close> and
  the counters are created by the engine and are not lists of the caller, so they stay
  values. The loops are \<^verbatim>\<open>while True\<close> loops on a store: partial functions.
\<close>

partial_function (option) unit_loop_h ::
  "nat \<Rightarrow> model \<Rightarrow> dpll_stats \<Rightarrow> store \<Rightarrow> (nat option \<times> model \<times> dpll_stats \<times> store) option" where
  "unit_loop_h f model st h =
     (case find_unit (formula_at h f) of
        None \<Rightarrow> Some (Some f, model, st, h)
      | Some u \<Rightarrow>
          (case simplify_obj f u h of
             (None, h') \<Rightarrow>
               Some (None, model(\<bar>u\<bar> \<mapsto> (u > 0)), st\<lparr>unit_count := unit_count st + 1\<rparr>, h')
           | (Some f', h') \<Rightarrow>
               unit_loop_h f' (model(\<bar>u\<bar> \<mapsto> (u > 0))) (st\<lparr>unit_count := unit_count st + 1\<rparr>) h'))"

text \<open>The comprehension \<^verbatim>\<open>[c for c in clauses if pure not in c]\<close> makes a new list of the
  same clause objects.\<close>

partial_function (option) pure_loop_h ::
  "nat \<Rightarrow> model \<Rightarrow> dpll_stats \<Rightarrow> store \<Rightarrow> (nat \<times> model \<times> dpll_stats \<times> store) option" where
  "pure_loop_h f model st h =
     (case find_pure (formula_at h f) of
        None \<Rightarrow> Some (f, model, st, h)
      | Some p \<Rightarrow>
          (case new_refs (filter (\<lambda>c. p \<notin> set (ints_of h c)) (refs_of h f)) h of
             (f', h') \<Rightarrow>
               pure_loop_h f' (model(\<bar>p\<bar> \<mapsto> (p > 0))) (st\<lparr>pure_count := pure_count st + 1\<rparr>) h'))"

declare unit_loop_h.simps [code] pure_loop_h.simps [code]

definition propagate_h ::
  "nat \<Rightarrow> model \<Rightarrow> dpll_stats \<Rightarrow> store \<Rightarrow> (nat option \<times> model \<times> dpll_stats \<times> store) option" where
  "propagate_h f model st h =
     Option.bind (unit_loop_h f model st h)
       (\<lambda>(r, model', st', h').
          case r of
            None \<Rightarrow> Some (None, model', st', h')
          | Some f' \<Rightarrow>
              Option.bind (pure_loop_h f' model' st' h')
                (\<lambda>(f'', model'', st'', h''). Some (Some f'', model'', st'', h'')))"

lemma unit_loop_h_shape:
  "holds_formula h f cs \<Longrightarrow>
     \<exists>r ext. unit_loop_h f m st h
                = Some (r, fst (snd (unit_loop cs m st)), snd (snd (unit_loop cs m st)), h @ ext)
             \<and> holds_result (h @ ext) r (fst (unit_loop cs m st))"
proof (induction cs m st arbitrary: h f rule: unit_loop.induct)
  case (1 cs m st)
  from "1.prems" have at: "formula_at h f = cs" by (simp add: holds_formula_def)
  show ?case
  proof (cases "find_unit cs")
    case None
    with "1.prems" at have "unit_loop_h f m st h = Some (Some f, m, st, h @ [])"
      and "unit_loop cs m st = (Some cs, m, st)" and "holds_result (h @ []) (Some f) (Some cs)"
      by (simp_all add: unit_loop_h.simps [of f] unit_loop.simps [of cs] holds_result_def)
    then show ?thesis by (metis fst_conv snd_conv)
  next
    case (Some u)
    let ?m = "m(\<bar>u\<bar> \<mapsto> (u > 0))"
    let ?st = "st\<lparr>unit_count := unit_count st + 1\<rparr>"
    from simplify_obj_shape [OF "1.prems", of u]
    obtain r1 ext1 where so: "simplify_obj f u h = (r1, h @ ext1)"
      and hr: "holds_result (h @ ext1) r1 (simplify cs u)" by blast
    show ?thesis
    proof (cases "simplify cs u")
      case None
      with hr have "r1 = None" by (simp add: holds_result_def)
      with Some at so have "unit_loop_h f m st h = Some (None, ?m, ?st, h @ ext1)"
        by (simp add: unit_loop_h.simps [of f])
      moreover from Some None have "unit_loop cs m st = (None, ?m, ?st)"
        by (simp add: unit_loop.simps [of cs])
      ultimately show ?thesis by (auto simp: holds_result_def)
    next
      case (Some cs')
      with hr obtain a where r1: "r1 = Some a" and ha: "holds_formula (h @ ext1) a cs'"
        by (auto simp: holds_result_def)
      from "1.IH" [OF \<open>find_unit cs = Some u\<close> refl refl Some ha]
      obtain r ext2 where run: "unit_loop_h a ?m ?st (h @ ext1)
            = Some (r, fst (snd (unit_loop cs' ?m ?st)), snd (snd (unit_loop cs' ?m ?st)),
                    (h @ ext1) @ ext2)"
        and res: "holds_result ((h @ ext1) @ ext2) r (fst (unit_loop cs' ?m ?st))"
        by blast
      from \<open>find_unit cs = Some u\<close> Some have eq: "unit_loop cs m st = unit_loop cs' ?m ?st"
        by (simp add: unit_loop.simps [of cs])
      from \<open>find_unit cs = Some u\<close> at so r1
      have "unit_loop_h f m st h = unit_loop_h a ?m ?st (h @ ext1)"
        by (simp add: unit_loop_h.simps [of f])
      with run res eq show ?thesis
        by (intro exI [of _ r] exI [of _ "ext1 @ ext2"]) simp
    qed
  qed
qed

lemma filter_refs_holds:
  assumes "holds_formula h f cs"
  shows "holds_formula (h @ [Refs (filter (\<lambda>c. p \<notin> set (ints_of h c)) (refs_of h f))]) (length h)
           (filter (\<lambda>c. p \<notin> set c) cs)"
proof -
  note hf = holds_formula_refs [OF assms]
  let ?rs = "filter (\<lambda>c. p \<notin> set (ints_of h c)) (refs_of h f)"
  let ?h' = "h @ [Refs ?rs]"
  have below: "\<forall>r \<in> set ?rs. r < length h" using hf(2) by simp
  from assms have "\<forall>r \<in> set (refs_of h f). \<exists>xs. h ! r = Ints xs"
    by (auto simp: holds_formula_def wf_formula_def refs_of_def)
  with below have wf: "wf_formula ?h' (length h)"
    by (auto simp: wf_formula_def nth_append)
  have "map (ints_of ?h') ?rs = map (ints_of h) ?rs"
    using below by (auto simp: ints_of_append)
  also have "\<dots> = filter (\<lambda>c. p \<notin> set c) cs"
    unfolding hf(1) by (simp add: filter_map comp_def)
  finally have "formula_at ?h' (length h) = filter (\<lambda>c. p \<notin> set c) cs"
    by (simp add: formula_at_def refs_of_def)
  with wf show ?thesis by (simp add: holds_formula_def)
qed

lemma pure_loop_h_shape:
  "holds_formula h f cs \<Longrightarrow>
     \<exists>a ext. pure_loop_h f m st h
                = Some (a, fst (snd (pure_loop cs m st)), snd (snd (pure_loop cs m st)), h @ ext)
             \<and> holds_formula (h @ ext) a (fst (pure_loop cs m st))"
proof (induction cs m st arbitrary: h f rule: pure_loop.induct)
  case (1 cs m st)
  from "1.prems" have at: "formula_at h f = cs" by (simp add: holds_formula_def)
  show ?case
  proof (cases "find_pure cs")
    case None
    with "1.prems" at have "pure_loop_h f m st h = Some (f, m, st, h @ [])"
      and "pure_loop cs m st = (cs, m, st)" and "holds_formula (h @ []) f cs"
      by (simp_all add: pure_loop_h.simps [of f] pure_loop.simps [of cs])
    then show ?thesis by (metis fst_conv snd_conv)
  next
    case (Some p)
    let ?m = "m(\<bar>p\<bar> \<mapsto> (p > 0))"
    let ?st = "st\<lparr>pure_count := pure_count st + 1\<rparr>"
    let ?ext1 = "[Refs (filter (\<lambda>c. p \<notin> set (ints_of h c)) (refs_of h f))]"
    let ?cs' = "filter (\<lambda>c. p \<notin> set c) cs"
    have ha: "holds_formula (h @ ?ext1) (length h) ?cs'"
      using "1.prems" by (rule filter_refs_holds)
    from "1.IH" [OF Some ha]
    obtain a ext2 where run: "pure_loop_h (length h) ?m ?st (h @ ?ext1)
          = Some (a, fst (snd (pure_loop ?cs' ?m ?st)), snd (snd (pure_loop ?cs' ?m ?st)),
                  (h @ ?ext1) @ ext2)"
      and res: "holds_formula ((h @ ?ext1) @ ext2) a (fst (pure_loop ?cs' ?m ?st))"
      by blast
    from Some have eq: "pure_loop cs m st = pure_loop ?cs' ?m ?st"
      by (simp add: pure_loop.simps [of cs])
    from Some at have "pure_loop_h f m st h = pure_loop_h (length h) ?m ?st (h @ ?ext1)"
      by (simp add: pure_loop_h.simps [of f] new_refs_def)
    with run res eq show ?thesis
      by (intro exI [of _ a] exI [of _ "?ext1 @ ext2"]) simp
  qed
qed

lemma propagate_h_shape:
  assumes "holds_formula h f cs"
  shows "\<exists>r ext. propagate_h f m st h
                = Some (r, fst (snd (propagate cs m st)), snd (snd (propagate cs m st)), h @ ext)
             \<and> holds_result (h @ ext) r (fst (propagate cs m st))"
proof -
  obtain x m1 st1 where ul: "unit_loop cs m st = (x, m1, st1)"
    by (cases "unit_loop cs m st") auto
  from unit_loop_h_shape [OF assms, of m st] ul
  obtain r1 ext1 where run1: "unit_loop_h f m st h = Some (r1, m1, st1, h @ ext1)"
    and res1: "holds_result (h @ ext1) r1 x" by auto
  show ?thesis
  proof (cases x)
    case None
    with res1 have "r1 = None" by (simp add: holds_result_def)
    with run1 have "propagate_h f m st h = Some (None, m1, st1, h @ ext1)"
      by (simp add: propagate_h_def)
    moreover from ul None have "propagate cs m st = (None, m1, st1)"
      by (simp add: propagate_def)
    ultimately show ?thesis by (auto simp: holds_result_def)
  next
    case (Some cs1)
    with res1 obtain a where r1: "r1 = Some a" and ha: "holds_formula (h @ ext1) a cs1"
      by (auto simp: holds_result_def)
    obtain cs2 m2 st2 where pl: "pure_loop cs1 m1 st1 = (cs2, m2, st2)"
      by (cases "pure_loop cs1 m1 st1") auto
    from pure_loop_h_shape [OF ha, of m1 st1] pl
    obtain b ext2 where run2: "pure_loop_h a m1 st1 (h @ ext1) = Some (b, m2, st2, (h @ ext1) @ ext2)"
      and res2: "holds_formula ((h @ ext1) @ ext2) b cs2" by auto
    from run1 r1 run2 have "propagate_h f m st h = Some (Some b, m2, st2, h @ ext1 @ ext2)"
      by (simp add: propagate_h_def)
    moreover from ul Some pl have "propagate cs m st = (Some cs2, m2, st2)"
      by (simp add: propagate_def)
    ultimately show ?thesis using res2 by (auto simp: holds_result_def)
  qed
qed


subsection \<open>\<^verbatim>\<open>solve\<close> of the DPLL engine on the store\<close>

text \<open>
  One call of \<^verbatim>\<open>solve\<close> with both arguments given; \<open>f\<close> is the address of
  \<^verbatim>\<open>clauses\<close>. The dict copy \<^verbatim>\<open>model.copy()\<close> is a value here. A call that does not
  return is \<open>None\<close>.
\<close>

partial_function (option) dpll_solve_h ::
  "nat \<Rightarrow> model \<Rightarrow> dpll_stats \<Rightarrow> store \<Rightarrow> ((py_error + model option) \<times> dpll_stats \<times> store) option" where
  "dpll_solve_h f model st h =
     Option.bind (propagate_h f model st h)
       (\<lambda>(r, model1, st1, h1).
          case r of
            None \<Rightarrow> Some (Inr None, st1, h1)
          | Some f1 \<Rightarrow>
              if formula_at h1 f1 = [] then Some (Inr (Some model1), st1, h1)
              else if formula_at h1 f1 ! 0 = [] then Some (Inl IndexError, st1, h1)
              else
                Option.bind
                  (case simplify_obj f1 (formula_at h1 f1 ! 0 ! 0) h1 of
                     (None, h2) \<Rightarrow> Some (Inr None, st1\<lparr>decisions := decisions st1 + 1\<rparr>, h2)
                   | (Some reduced, h2) \<Rightarrow>
                       dpll_solve_h reduced (model1(\<bar>formula_at h1 f1 ! 0 ! 0\<bar> \<mapsto> True))
                         (st1\<lparr>decisions := decisions st1 + 1\<rparr>) h2)
                  (\<lambda>(r1, st3, h3).
                     case r1 of
                       Inl e \<Rightarrow> Some (Inl e, st3, h3)
                     | Inr (Some result) \<Rightarrow> Some (Inr (Some result), st3, h3)
                     | Inr None \<Rightarrow>
                         Option.bind
                           (case simplify_obj f1 (- (formula_at h1 f1 ! 0 ! 0)) h3 of
                              (None, h4) \<Rightarrow>
                                Some (Inr None, st3\<lparr>backtracks := backtracks st3 + 1\<rparr>, h4)
                            | (Some reduced, h4) \<Rightarrow>
                                dpll_solve_h reduced
                                  (model1(\<bar>formula_at h1 f1 ! 0 ! 0\<bar> \<mapsto> False))
                                  (st3\<lparr>backtracks := backtracks st3 + 1\<rparr>) h4)
                           (\<lambda>(r2, st5, h5).
                              case r2 of
                                Inl e \<Rightarrow> Some (Inl e, st5, h5)
                              | Inr (Some result) \<Rightarrow> Some (Inr (Some result), st5, h5)
                              | Inr None \<Rightarrow>
                                  Some (Inr None, st5\<lparr>backtracks := backtracks st5 + 1\<rparr>, h5))))"

declare dpll_solve_h.simps [code]

text \<open>
  \<^verbatim>\<open>DPLLSolver(cnf).solve()\<close>: the constructor keeps the caller's list itself
  (\<^verbatim>\<open>self._formula = cnf\<close>), and \<^verbatim>\<open>solve\<close> starts from the copy
  \<^verbatim>\<open>[c[:] for c in self._formula]\<close>.
\<close>

definition DPLLSolver_solve_h ::
  "nat \<Rightarrow> store \<Rightarrow> ((py_error + model option) \<times> dpll_stats \<times> store) option" where
  "DPLLSolver_solve_h cnf h =
     (case copy_formula cnf h of (clauses_copy, h') \<Rightarrow> dpll_solve_h clauses_copy Map.empty stats_init h')"


text \<open>A round of the loop over the truth values: simplify under the literal, then recurse.\<close>

lemma branch_h_shape:
  assumes hf: "holds_formula h f1 cs1"
    and IH: "\<And>reduced a h'. simplify cs1 lit = Some reduced \<Longrightarrow> holds_formula h' a reduced \<Longrightarrow>
        \<exists>ext. dpll_solve_h a m st h'
                 = Some (fst (dpll_solve reduced m st), snd (dpll_solve reduced m st), h' @ ext)"
  shows "\<exists>ext. (case simplify_obj f1 lit h of
                   (None, h2) \<Rightarrow> Some (Inr None, st, h2)
                 | (Some reduced, h2) \<Rightarrow> dpll_solve_h reduced m st h2)
            = Some (fst (case simplify cs1 lit of None \<Rightarrow> (Inr None, st)
                         | Some reduced \<Rightarrow> dpll_solve reduced m st),
                    snd (case simplify cs1 lit of None \<Rightarrow> (Inr None, st)
                         | Some reduced \<Rightarrow> dpll_solve reduced m st),
                    h @ ext)"
proof -
  from simplify_obj_shape [OF hf, of lit]
  obtain r ext1 where so: "simplify_obj f1 lit h = (r, h @ ext1)"
    and hr: "holds_result (h @ ext1) r (simplify cs1 lit)" by blast
  show ?thesis
  proof (cases "simplify cs1 lit")
    case None
    with hr have "r = None" by (simp add: holds_result_def)
    with so None show ?thesis by simp
  next
    case (Some reduced)
    with hr obtain a where r: "r = Some a" and ha: "holds_formula (h @ ext1) a reduced"
      by (auto simp: holds_result_def)
    from IH [OF Some ha] obtain ext2 where
      "dpll_solve_h a m st (h @ ext1)
         = Some (fst (dpll_solve reduced m st), snd (dpll_solve reduced m st), (h @ ext1) @ ext2)"
      by blast
    with so r Some show ?thesis by (intro exI [of _ "ext1 @ ext2"]) simp
  qed
qed

lemma dpll_solve_h_shape:
  "holds_formula h f cs \<Longrightarrow>
     \<exists>ext. dpll_solve_h f m st h
              = Some (fst (dpll_solve cs m st), snd (dpll_solve cs m st), h @ ext)"
proof (induction cs m st arbitrary: h f rule: dpll_solve.induct)
  case (1 cs m st)
  obtain x m1 st1 where pr: "propagate cs m st = (x, m1, st1)"
    by (cases "propagate cs m st") auto
  from propagate_h_shape [OF "1.prems", of m st] pr
  obtain r ext1 where ph: "propagate_h f m st h = Some (r, m1, st1, h @ ext1)"
    and hr: "holds_result (h @ ext1) r x" by auto
  show ?case
  proof (cases x)
    case None
    with hr have "r = None" by (simp add: holds_result_def)
    with ph have "dpll_solve_h f m st h = Some (Inr None, st1, h @ ext1)"
      by (subst dpll_solve_h.simps) simp
    with pr None show ?thesis by (auto simp: dpll_solve_conflict)
  next
    case (Some cs1)
    note pr1 = pr [unfolded Some]
    from hr Some obtain f1 where r: "r = Some f1" and hf1: "holds_formula (h @ ext1) f1 cs1"
      by (auto simp: holds_result_def)
    from hf1 have at1: "formula_at (h @ ext1) f1 = cs1" by (simp add: holds_formula_def)
    show ?thesis
    proof (cases "cs1 = []")
      case True
      with ph r at1 have "dpll_solve_h f m st h = Some (Inr (Some m1), st1, h @ ext1)"
        by (subst dpll_solve_h.simps) simp
      with pr1 True show ?thesis by (auto simp: dpll_solve_done)
    next
      case False
      show ?thesis
      proof (cases "cs1 ! 0 = []")
        case True
        with ph r at1 False have "dpll_solve_h f m st h = Some (Inl IndexError, st1, h @ ext1)"
          by (subst dpll_solve_h.simps) simp
        with pr1 True False show ?thesis by (auto simp: dpll_solve_IndexError)
      next
        case hd_ne: False
        let ?pivot = "cs1 ! 0 ! 0"
        let ?st2 = "st1\<lparr>decisions := decisions st1 + 1\<rparr>"
        let ?R1 = "case simplify cs1 ?pivot of None \<Rightarrow> (Inr None, ?st2)
            | Some reduced \<Rightarrow> dpll_solve reduced (m1(\<bar>?pivot\<bar> \<mapsto> True)) ?st2"
        obtain v1 st3 where R1: "?R1 = (v1, st3)" by (cases ?R1) auto
        have "\<exists>ext. (case simplify_obj f1 ?pivot (h @ ext1) of
                   (None, h2) \<Rightarrow> Some (Inr None, ?st2, h2)
                 | (Some reduced, h2) \<Rightarrow> dpll_solve_h reduced (m1(\<bar>?pivot\<bar> \<mapsto> True)) ?st2 h2)
            = Some (fst ?R1, snd ?R1, (h @ ext1) @ ext)"
          using hf1
        proof (rule branch_h_shape)
          fix reduced a h'
          assume "simplify cs1 ?pivot = Some reduced" and "holds_formula h' a reduced"
          then show "\<exists>ext. dpll_solve_h a (m1(\<bar>?pivot\<bar> \<mapsto> True)) ?st2 h'
                 = Some (fst (dpll_solve reduced (m1(\<bar>?pivot\<bar> \<mapsto> True)) ?st2),
                         snd (dpll_solve reduced (m1(\<bar>?pivot\<bar> \<mapsto> True)) ?st2), h' @ ext)"
            by (rule "1.IH"(1) [OF pr [symmetric] \<open>x = Some cs1\<close> refl False hd_ne refl refl])
        qed
        then obtain ext2 where first:
          "(case simplify_obj f1 ?pivot (h @ ext1) of
                   (None, h2) \<Rightarrow> Some (Inr None, ?st2, h2)
                 | (Some reduced, h2) \<Rightarrow> dpll_solve_h reduced (m1(\<bar>?pivot\<bar> \<mapsto> True)) ?st2 h2)
            = Some (v1, st3, h @ ext1 @ ext2)"
          unfolding R1 by auto
        let ?st4 = "st3\<lparr>backtracks := backtracks st3 + 1\<rparr>"
        let ?R2 = "case simplify cs1 (- ?pivot) of None \<Rightarrow> (Inr None, ?st4)
            | Some reduced \<Rightarrow> dpll_solve reduced (m1(\<bar>?pivot\<bar> \<mapsto> False)) ?st4"
        note pure_eq = dpll_solve_branch [OF pr1 False hd_ne, unfolded R1]
        show ?thesis
        proof (cases "v1 = Inr None")
          case False
          with ph r at1 \<open>cs1 \<noteq> []\<close> hd_ne first
          have "dpll_solve_h f m st h = Some (v1, st3, h @ ext1 @ ext2)"
            by (subst dpll_solve_h.simps) (auto split: sum.splits option.splits)
          moreover from False have "dpll_solve cs m st = (v1, st3)"
            unfolding pure_eq by (auto split: sum.splits option.splits)
          ultimately show ?thesis by simp
        next
          case True
          obtain v2 st5 where R2: "?R2 = (v2, st5)" by (cases ?R2) auto
          from hf1 have hf3: "holds_formula ((h @ ext1) @ ext2) f1 cs1"
            by (rule holds_formula_append)
          have "\<exists>ext. (case simplify_obj f1 (- ?pivot) ((h @ ext1) @ ext2) of
                   (None, h4) \<Rightarrow> Some (Inr None, ?st4, h4)
                 | (Some reduced, h4) \<Rightarrow> dpll_solve_h reduced (m1(\<bar>?pivot\<bar> \<mapsto> False)) ?st4 h4)
            = Some (fst ?R2, snd ?R2, ((h @ ext1) @ ext2) @ ext)"
            using hf3
          proof (rule branch_h_shape)
            fix reduced a h'
            assume "simplify cs1 (- ?pivot) = Some reduced" and "holds_formula h' a reduced"
            then show "\<exists>ext. dpll_solve_h a (m1(\<bar>?pivot\<bar> \<mapsto> False)) ?st4 h'
                 = Some (fst (dpll_solve reduced (m1(\<bar>?pivot\<bar> \<mapsto> False)) ?st4),
                         snd (dpll_solve reduced (m1(\<bar>?pivot\<bar> \<mapsto> False)) ?st4), h' @ ext)"
              by (rule "1.IH"(2) [OF pr [symmetric] \<open>x = Some cs1\<close> refl False hd_ne refl refl
                    R1 [symmetric] True refl refl])
          qed
          then obtain ext3 where second:
            "(case simplify_obj f1 (- ?pivot) (h @ ext1 @ ext2) of
                   (None, h4) \<Rightarrow> Some (Inr None, ?st4, h4)
                 | (Some reduced, h4) \<Rightarrow> dpll_solve_h reduced (m1(\<bar>?pivot\<bar> \<mapsto> False)) ?st4 h4)
            = Some (v2, st5, h @ ext1 @ ext2 @ ext3)"
            unfolding R2 by auto
          let ?v = "case v2 of Inl e \<Rightarrow> (Inl e, st5)
              | Inr (Some result) \<Rightarrow> (Inr (Some result), st5)
              | Inr None \<Rightarrow> (Inr None, st5\<lparr>backtracks := backtracks st5 + 1\<rparr>)"
          from ph r at1 \<open>cs1 \<noteq> []\<close> hd_ne first True second
          have "dpll_solve_h f m st h = Some (fst ?v, snd ?v, h @ ext1 @ ext2 @ ext3)"
            by (subst dpll_solve_h.simps) (auto split: sum.splits option.splits)
          moreover have "dpll_solve cs m st = ?v"
            by (simp add: pure_eq True R2)
          ultimately show ?thesis by simp
        qed
      qed
    qed
  qed
qed


lemma DPLLSolver_solve_h_shape:
  assumes "holds_formula h cnf cs"
  shows "\<exists>ext. DPLLSolver_solve_h cnf h
           = Some (fst (DPLLSolver_solve cs), snd (DPLLSolver_solve cs), h @ ext)"
proof -
  from copy_formula_shape [OF assms]
  obtain a ext1 where cp: "copy_formula cnf h = (a, h @ ext1)"
    and ha: "holds_formula (h @ ext1) a cs" by blast
  from dpll_solve_h_shape [OF ha, of Map.empty stats_init]
  obtain ext2 where "dpll_solve_h a Map.empty stats_init (h @ ext1)
      = Some (fst (dpll_solve cs Map.empty stats_init), snd (dpll_solve cs Map.empty stats_init),
              (h @ ext1) @ ext2)" by blast
  with cp show ?thesis
    by (intro exI [of _ "ext1 @ ext2"]) (simp add: DPLLSolver_solve_h_def DPLLSolver_solve_def)
qed

subsection \<open>The DP engine on the store\<close>

text \<open>
  The instance of \<^verbatim>\<open>DPSolver\<close>: the attribute \<^verbatim>\<open>_clauses\<close> holds the address of a
  list, the counters are numbers.
\<close>

record dp_self =
  clauses_at :: nat
  vars_eliminated_h :: nat
  resolvents_h :: nat

text \<open>\<^verbatim>\<open>__init__\<close>: \<^verbatim>\<open>self._clauses = [c[:] for c in clauses]\<close>.\<close>

definition DPSolver_init_h :: "nat \<Rightarrow> store \<Rightarrow> dp_self \<times> store" where
  "DPSolver_init_h cnf h =
     (case copy_formula cnf h of
        (a, h') \<Rightarrow> (\<lparr>clauses_at = a, vars_eliminated_h = 0, resolvents_h = 0\<rparr>, h'))"

text \<open>
  The first loop of \<^verbatim>\<open>_eliminate\<close>: every clause of \<^verbatim>\<open>self._clauses\<close> is appended to
  one of the three new lists at the addresses \<open>pos\<close>, \<open>neg\<close> and \<open>rest\<close>.
\<close>

fun split_h :: "int \<Rightarrow> nat list \<Rightarrow> nat \<Rightarrow> nat \<Rightarrow> nat \<Rightarrow> store \<Rightarrow> store" where
  "split_h var [] pos neg rest h = h"
| "split_h var (c # cs) pos neg rest h =
     (if var \<in> set (ints_of h c) then split_h var cs pos neg rest (append_ref pos c h)
      else if - var \<in> set (ints_of h c) then split_h var cs pos neg rest (append_ref neg c h)
      else split_h var cs pos neg rest (append_ref rest c h))"

text \<open>
  The nested loops: the comprehension creates the resolvent as a new clause object, which
  is appended to the new list at \<open>new_clauses\<close> unless it is empty. The boolean is false
  when the loop left by \<^verbatim>\<open>return None\<close>.
\<close>

fun resolve_h :: "union_iter \<Rightarrow> int \<Rightarrow> (nat \<times> nat) list \<Rightarrow> nat \<Rightarrow> nat \<Rightarrow> store \<Rightarrow> bool \<times> nat \<times> store" where
  "resolve_h u var [] new_clauses n h = (True, n, h)"
| "resolve_h u var ((c1, c2) # ps) new_clauses n h =
     (case new_ints (resolvent u var (ints_of h c1) (ints_of h c2)) h of
        (r, h1) \<Rightarrow>
          if ints_of h1 r = [] then (False, n, h1)
          else resolve_h u var ps new_clauses (n + 1) (append_ref new_clauses r h1))"

definition eliminate_h :: "union_iter \<Rightarrow> int \<Rightarrow> dp_self \<Rightarrow> store \<Rightarrow> nat option \<times> dp_self \<times> store" where
  "eliminate_h u var s h =
     (case new_refs [] h of (pos, h1) \<Rightarrow>
      case new_refs [] h1 of (neg, h2) \<Rightarrow>
      case new_refs [] h2 of (rest, h3) \<Rightarrow>
      case new_refs [] (split_h var (refs_of h3 (clauses_at s)) pos neg rest h3) of
        (new_clauses, h5) \<Rightarrow>
      case resolve_h u var (List.product (refs_of h5 pos) (refs_of h5 neg)) new_clauses
             (resolvents_h s) h5 of
        (ok, n, h6) \<Rightarrow>
          if \<not> ok then (None, s\<lparr>resolvents_h := n\<rparr>, h6)
          else
            (case new_refs (refs_of h6 rest @ refs_of h6 new_clauses) h6 of
               (joined, h7) \<Rightarrow>
                 (Some joined,
                  s\<lparr>clauses_at := joined, resolvents_h := n,
                    vars_eliminated_h := vars_eliminated_h s + 1\<rparr>,
                  h7)))"

partial_function (option) dp_loop_h ::
  "union_iter \<Rightarrow> dp_self \<Rightarrow> store \<Rightarrow> (bool \<times> dp_self \<times> store) option" where
  "dp_loop_h u s h =
     (if formula_at h (clauses_at s) = [] then Some (True, s, h)
      else if (\<exists>c \<in> set (formula_at h (clauses_at s)). length c = 0) then Some (False, s, h)
      else (case choose_var (formula_at h (clauses_at s)) of
              None \<Rightarrow> Some (True, s, h)
            | Some v \<Rightarrow>
                (case eliminate_h u v s h of
                   (None, s', h') \<Rightarrow> Some (False, s', h')
                 | (Some cs, s', h') \<Rightarrow> dp_loop_h u s' h')))"

declare dp_loop_h.simps [code]

definition DPSolver_solve_h :: "union_iter \<Rightarrow> nat \<Rightarrow> store \<Rightarrow> (bool \<times> dp_self \<times> store) option" where
  "DPSolver_solve_h u cnf h = (case DPSolver_init_h cnf h of (s, h') \<Rightarrow> dp_loop_h u s h')"

lemma split_h_shape:
  "\<forall>c \<in> set cs. c < length h \<Longrightarrow>
     split_h var cs (length h) (Suc (length h)) (Suc (Suc (length h)))
         (h @ [Refs ps, Refs ns, Refs rs])
       = h @ [Refs (ps @ filter (\<lambda>c. var \<in> set (ints_of h c)) cs),
              Refs (ns @ filter (\<lambda>c. var \<notin> set (ints_of h c) \<and> - var \<in> set (ints_of h c)) cs),
              Refs (rs @ filter (\<lambda>c. var \<notin> set (ints_of h c) \<and> - var \<notin> set (ints_of h c)) cs)]"
proof (induction cs arbitrary: ps ns rs)
  case Nil
  show ?case by simp
next
  case (Cons c cs)
  from Cons.prems have c: "c < length h" and cs: "\<forall>c \<in> set cs. c < length h" by simp_all
  have rd: "ints_of (h @ [Refs ps, Refs ns, Refs rs]) c = ints_of h c"
    using c by (rule ints_of_append)
  have a0: "append_ref (length h) c (h @ [Refs ps, Refs ns, Refs rs])
      = h @ [Refs (ps @ [c]), Refs ns, Refs rs]"
    by (simp add: append_ref_def refs_of_def list_update_append)
  have a1: "append_ref (Suc (length h)) c (h @ [Refs ps, Refs ns, Refs rs])
      = h @ [Refs ps, Refs (ns @ [c]), Refs rs]"
    by (simp add: append_ref_def refs_of_def list_update_append nth_append)
  have a2: "append_ref (Suc (Suc (length h))) c (h @ [Refs ps, Refs ns, Refs rs])
      = h @ [Refs ps, Refs ns, Refs (rs @ [c])]"
    by (simp add: append_ref_def refs_of_def list_update_append nth_append)
  show ?case
    using Cons.IH [OF cs, of "ps @ [c]" ns rs] Cons.IH [OF cs, of ps "ns @ [c]" rs]
      Cons.IH [OF cs, of ps ns "rs @ [c]"]
    by (simp add: rd a0 a1 a2)
qed


lemma resolve_h_shape:
  assumes "\<forall>(c1, c2) \<in> set ps. c1 < length base \<and> c2 < length base"
  shows "\<exists>ok ext. resolve_h u var ps (length base) n (building base done)
           = (ok, snd (resolve_loop u var
                         (map (\<lambda>(c1, c2). (ints_of base c1, ints_of base c2)) ps) done n),
              base @ ext)
         \<and> (case fst (resolve_loop u var
                         (map (\<lambda>(c1, c2). (ints_of base c1, ints_of base c2)) ps) done n) of
              None \<Rightarrow> \<not> ok
            | Some new \<Rightarrow> ok \<and> base @ ext = building base new)"
  using assms
proof (induction ps arbitrary: "done" n)
  case Nil
  show ?case by (auto simp: building_def)
next
  case (Cons p ps)
  obtain c1 c2 where p: "p = (c1, c2)" by (cases p)
  from Cons.prems p have c: "c1 < length base" "c2 < length base"
    and ps: "\<forall>(c1, c2) \<in> set ps. c1 < length base \<and> c2 < length base" by simp_all
  let ?r = "resolvent u var (ints_of base c1) (ints_of base c2)"
  obtain a h1 where ni: "new_ints ?r (building base done) = (a, h1)"
    by (cases "new_ints ?r (building base done)") auto
  note add = building_add [OF ni]
  show ?case
  proof (cases "?r = []")
    case True
    with p c ni add show ?thesis by (auto simp: building_read)
  next
    case False
    from Cons.IH [OF ps, of "n + 1" "done @ [?r]"] False p c ni add
    show ?thesis by (simp add: building_read Let_def)
  qed
qed

lemma map_product:
  "map (\<lambda>(a, b). (f a, g b)) (List.product xs ys) = List.product (map f xs) (map g ys)"
  by (induction xs) (simp_all add: comp_def)

lemma filtered_holds:
  assumes "holds_formula h f cs" and "a < length (h @ ext)"
    and "(h @ ext) ! a = Refs (filter (\<lambda>c. Q (ints_of h c)) (refs_of h f))"
  shows "holds_formula (h @ ext) a (filter Q cs)"
proof -
  note hf = holds_formula_refs [OF assms(1)]
  let ?rs = "filter (\<lambda>c. Q (ints_of h c)) (refs_of h f)"
  have below: "\<forall>r \<in> set ?rs. r < length h" using hf(2) by simp
  from assms(1) have "\<forall>r \<in> set (refs_of h f). \<exists>xs. h ! r = Ints xs"
    by (auto simp: holds_formula_def wf_formula_def refs_of_def)
  with below assms(2,3) have wf: "wf_formula (h @ ext) a"
    by (auto simp: wf_formula_def nth_append)
  have "map (ints_of (h @ ext)) ?rs = map (ints_of h) ?rs"
    using below by (auto simp: ints_of_append)
  also have "\<dots> = filter Q cs"
    unfolding hf(1) by (simp add: filter_map comp_def)
  finally have "formula_at (h @ ext) a = filter Q cs"
    using assms(3) by (simp add: formula_at_def refs_of_def)
  with wf show ?thesis by (simp add: holds_formula_def)
qed

lemma joined_holds:
  assumes "holds_formula h a xs" and "holds_formula h b ys"
  shows "holds_formula (h @ [Refs (refs_of h a @ refs_of h b)]) (length h) (xs @ ys)"
proof -
  let ?h' = "h @ [Refs (refs_of h a @ refs_of h b)]"
  note ha = holds_formula_refs [OF assms(1)] and hb = holds_formula_refs [OF assms(2)]
  from assms have ints: "\<forall>r \<in> set (refs_of h a @ refs_of h b). \<exists>xs. h ! r = Ints xs"
    by (auto simp: holds_formula_def wf_formula_def refs_of_def)
  with ha(2) hb(2) have wf: "wf_formula ?h' (length h)"
    by (auto simp: wf_formula_def nth_append)
  have "map (ints_of ?h') (refs_of h a @ refs_of h b) = xs @ ys"
    using ha(1,2) hb(1,2) by (auto simp: ints_of_append)
  then have "formula_at ?h' (length h) = xs @ ys"
    by (simp add: formula_at_def refs_of_def)
  with wf show ?thesis by (simp add: holds_formula_def)
qed

text \<open>The instance on the store stands for the instance on lists.\<close>

definition dp_rel :: "store \<Rightarrow> dp_self \<Rightarrow> dp_state \<Rightarrow> bool" where
  "dp_rel h s t =
     (holds_formula h (clauses_at s) (dp_clauses t)
      \<and> vars_eliminated_h s = vars_eliminated t \<and> resolvents_h s = resolvents t)"

lemma eliminate_h_shape:
  assumes "dp_rel h s t"
  shows "\<exists>r s' ext. eliminate_h u var s h = (r, s', h @ ext)
           \<and> dp_rel (h @ ext) s' (snd (eliminate u var t))
           \<and> (r = None \<longleftrightarrow> fst (eliminate u var t) = None)"
proof -
  let ?cs = "dp_clauses t"
  let ?rs = "refs_of h (clauses_at s)"
  let ?n = "length h"
  from assms have hf: "holds_formula h (clauses_at s) ?cs"
    and cnt: "vars_eliminated_h s = vars_eliminated t" "resolvents_h s = resolvents t"
    by (simp_all add: dp_rel_def)
  note hr = holds_formula_refs [OF hf]
  let ?P = "filter (\<lambda>c. var \<in> set (ints_of h c)) ?rs"
  let ?N = "filter (\<lambda>c. var \<notin> set (ints_of h c) \<and> - var \<in> set (ints_of h c)) ?rs"
  let ?R = "filter (\<lambda>c. var \<notin> set (ints_of h c) \<and> - var \<notin> set (ints_of h c)) ?rs"
  let ?pos = "filter (\<lambda>c. var \<in> set c) ?cs"
  let ?neg = "filter (\<lambda>c. var \<notin> set c \<and> - var \<in> set c) ?cs"
  let ?rest = "filter (\<lambda>c. var \<notin> set c \<and> - var \<notin> set c) ?cs"
  let ?h4 = "h @ [Refs ?P, Refs ?N, Refs ?R]"
  have split: "split_h var ?rs ?n (Suc ?n) (Suc (Suc ?n)) (h @ [Refs [], Refs [], Refs []]) = ?h4"
    using split_h_shape [OF hr(2), of var "[]" "[]" "[]"] by simp
  have below: "\<forall>(c1, c2) \<in> set (List.product ?P ?N). c1 < length ?h4 \<and> c2 < length ?h4"
    using hr(2) by auto
  have pairs: "map (\<lambda>(c1, c2). (ints_of ?h4 c1, ints_of ?h4 c2)) (List.product ?P ?N)
      = List.product ?pos ?neg"
  proof -
    have "map (\<lambda>(c1, c2). (ints_of ?h4 c1, ints_of ?h4 c2)) (List.product ?P ?N)
        = map (\<lambda>(c1, c2). (ints_of h c1, ints_of h c2)) (List.product ?P ?N)"
      using hr(2) by (auto simp: ints_of_append)
    also have "\<dots> = List.product (map (ints_of h) ?P) (map (ints_of h) ?N)"
      by (rule map_product)
    also have "\<dots> = List.product ?pos ?neg"
      unfolding hr(1) by (simp add: filter_map comp_def)
    finally show ?thesis .
  qed
  obtain pr k where rl: "resolve_loop u var (List.product ?pos ?neg) [] (resolvents t) = (pr, k)"
    by (cases "resolve_loop u var (List.product ?pos ?neg) [] (resolvents t)") auto
  from resolve_h_shape [OF below, of u var "resolvents t" "[]"]
  obtain ok ext where rh: "resolve_h u var (List.product ?P ?N) (length ?h4) (resolvents t)
        (building ?h4 []) = (ok, k, ?h4 @ ext)"
    and res: "case pr of None \<Rightarrow> \<not> ok | Some new \<Rightarrow> ok \<and> ?h4 @ ext = building ?h4 new"
    unfolding pairs rl by auto
  have pure: "eliminate u var t =
      (case pr of None \<Rightarrow> (None, t\<lparr>resolvents := k\<rparr>)
       | Some new \<Rightarrow> (Some (?rest @ new),
           t\<lparr>dp_clauses := ?rest @ new, resolvents := k,
             vars_eliminated := vars_eliminated t + 1\<rparr>))"
    by (simp add: eliminate_def split_clauses_eq rl)
  have rdP: "refs_of (building ?h4 []) ?n = ?P" and rdN: "refs_of (building ?h4 []) (Suc ?n) = ?N"
    by (simp_all add: building_def refs_of_def nth_append)
  have start: "eliminate_h u var s h =
      (if \<not> ok then (None, s\<lparr>resolvents_h := k\<rparr>, ?h4 @ ext)
       else (Some (length (?h4 @ ext)),
             s\<lparr>clauses_at := length (?h4 @ ext), resolvents_h := k,
               vars_eliminated_h := vars_eliminated_h s + 1\<rparr>,
             (?h4 @ ext) @ [Refs (refs_of (?h4 @ ext) (Suc (Suc ?n))
                 @ refs_of (?h4 @ ext) (Suc (Suc (Suc ?n))))]))"
    using hr(3) split rh rdP rdN cnt(2)
    by (simp add: eliminate_h_def new_refs_def refs_of_append building_Nil)
  show ?thesis
  proof (cases pr)
    case None
    with res have "\<not> ok" by simp
    with start have run: "eliminate_h u var s h
        = (None, s\<lparr>resolvents_h := k\<rparr>, h @ ([Refs ?P, Refs ?N, Refs ?R] @ ext))" by simp
    from hf have "holds_formula (h @ ([Refs ?P, Refs ?N, Refs ?R] @ ext)) (clauses_at s) ?cs"
      by (rule holds_formula_append)
    with cnt have "dp_rel (h @ ([Refs ?P, Refs ?N, Refs ?R] @ ext)) (s\<lparr>resolvents_h := k\<rparr>)
        (t\<lparr>resolvents := k\<rparr>)"
      by (simp add: dp_rel_def)
    with run None pure show ?thesis by (intro exI) auto
  next
    case (Some new)
    with res have ok: ok and h6: "?h4 @ ext = building ?h4 new" by simp_all
    let ?h6 = "?h4 @ ext"
    have hrest: "holds_formula ?h6 (Suc (Suc ?n)) ?rest"
    proof -
      have "holds_formula (h @ ([Refs ?P, Refs ?N, Refs ?R] @ ext)) (Suc (Suc ?n))
          (filter (\<lambda>c. var \<notin> set c \<and> - var \<notin> set c) ?cs)"
        using hf by (rule filtered_holds) (simp_all add: nth_append)
      then show ?thesis by simp
    qed
    have hnew: "holds_formula ?h6 (Suc (Suc (Suc ?n))) new"
    proof -
      have "holds_formula (building ?h4 new @ []) (length ?h4) new" by (rule building_holds)
      then show ?thesis unfolding h6 by simp
    qed
    let ?h7 = "?h6 @ [Refs (refs_of ?h6 (Suc (Suc ?n)) @ refs_of ?h6 (Suc (Suc (Suc ?n))))]"
    from joined_holds [OF hrest hnew]
    have hj: "holds_formula ?h7 (length ?h6) (?rest @ new)" .
    from start ok have run: "eliminate_h u var s h
        = (Some (length ?h6),
           s\<lparr>clauses_at := length ?h6, resolvents_h := k,
             vars_eliminated_h := vars_eliminated_h s + 1\<rparr>, ?h7)" by simp
    have "dp_rel ?h7 (s\<lparr>clauses_at := length ?h6, resolvents_h := k,
             vars_eliminated_h := vars_eliminated_h s + 1\<rparr>)
          (t\<lparr>dp_clauses := ?rest @ new, resolvents := k,
             vars_eliminated := vars_eliminated t + 1\<rparr>)"
      using hj cnt by (simp add: dp_rel_def)
    moreover have "?h7 = h @ ([Refs ?P, Refs ?N, Refs ?R] @ ext
        @ [Refs (refs_of ?h6 (Suc (Suc ?n)) @ refs_of ?h6 (Suc (Suc (Suc ?n))))])" by simp
    ultimately show ?thesis
      using run Some pure by (intro exI) (auto simp del: append_assoc append.simps)
  qed
qed


lemma dp_loop_h_shape:
  assumes "set_order u"
  shows "dp_rel h s t \<Longrightarrow>
     \<exists>verdict s' t' ext. dp_loop u t = Some (verdict, t')
        \<and> dp_loop_h u s h = Some (verdict, s', h @ ext) \<and> dp_rel (h @ ext) s' t'"
proof (induction "card (fvars (dp_clauses t))" arbitrary: s t h rule: less_induct)
  case less
  from less.prems have at: "formula_at h (clauses_at s) = dp_clauses t"
    by (simp add: dp_rel_def holds_formula_def)
  have stop: "\<exists>verdict s' t' ext. dp_loop u t = Some (verdict, t')
        \<and> dp_loop_h u s h = Some (verdict, s', h @ ext) \<and> dp_rel (h @ ext) s' t'"
    if "dp_loop u t = Some (b, t)" and "dp_loop_h u s h = Some (b, s, h)" for b
    using that less.prems by (intro exI [of _ b] exI [of _ s] exI [of _ t] exI [of _ "[]"]) simp
  show ?case
  proof (cases "dp_clauses t = [] \<or> (\<exists>c \<in> set (dp_clauses t). length c = 0)")
    case True
    then show ?thesis
      by (intro stop [of "dp_clauses t = []"])
        (auto simp: dp_loop.simps [of u t] dp_loop_h.simps [of u s h] at)
  next
    case False
    show ?thesis
    proof (cases "choose_var (dp_clauses t)")
      case None
      with False show ?thesis
        by (intro stop [of True]) (auto simp: dp_loop.simps [of u t] dp_loop_h.simps [of u s h] at)
    next
      case (Some v)
      obtain pr t1 where el: "eliminate u v t = (pr, t1)" by (cases "eliminate u v t") auto
      from eliminate_h_shape [OF less.prems, of u v] el
      obtain r s1 ext1 where elh: "eliminate_h u v s h = (r, s1, h @ ext1)"
        and rel1: "dp_rel (h @ ext1) s1 t1" and none: "r = None \<longleftrightarrow> pr = None" by auto
      show ?thesis
      proof (cases pr)
        case None
        with none have "r = None" by simp
        with False Some elh at have "dp_loop_h u s h = Some (False, s1, h @ ext1)"
          by (auto simp: dp_loop_h.simps [of u s h])
        moreover from False Some el None have "dp_loop u t = Some (False, t1)"
          by (auto simp: dp_loop.simps [of u t])
        ultimately show ?thesis using rel1 by blast
      next
        case (Some cs)
        with none obtain a where r: "r = Some a" by (cases r) auto
        note el' = el [unfolded Some]
        from eliminate_fewer_vars(3) [OF assms \<open>choose_var (dp_clauses t) = Some v\<close> el']
          eliminate_Some(2) [OF el']
        have "card (fvars (dp_clauses t1)) < card (fvars (dp_clauses t))" by simp
        from less.hyps [OF this rel1]
        obtain verdict s' t' ext2 where run: "dp_loop u t1 = Some (verdict, t')"
          and runh: "dp_loop_h u s1 (h @ ext1) = Some (verdict, s', (h @ ext1) @ ext2)"
          and rel: "dp_rel ((h @ ext1) @ ext2) s' t'" by blast
        from False \<open>choose_var (dp_clauses t) = Some v\<close> el Some
        have "dp_loop u t = dp_loop u t1" by (auto simp: dp_loop.simps [of u t])
        moreover from False \<open>choose_var (dp_clauses t) = Some v\<close> elh r at
        have "dp_loop_h u s h = dp_loop_h u s1 (h @ ext1)"
          by (auto simp: dp_loop_h.simps [of u s h])
        ultimately show ?thesis
          using run runh rel
          by (intro exI [of _ verdict] exI [of _ s'] exI [of _ t'] exI [of _ "ext1 @ ext2"]) simp
      qed
    qed
  qed
qed

lemma DPSolver_solve_h_shape:
  assumes "set_order u" and "holds_formula h cnf cs"
  shows "\<exists>verdict s' t' ext. DPSolver_solve u cs = Some (verdict, t')
          \<and> DPSolver_solve_h u cnf h = Some (verdict, s', h @ ext) \<and> dp_rel (h @ ext) s' t'"
proof -
  from copy_formula_shape [OF assms(2)]
  obtain a ext1 where cp: "copy_formula cnf h = (a, h @ ext1)"
    and ha: "holds_formula (h @ ext1) a cs" by blast
  let ?s = "\<lparr>clauses_at = a, vars_eliminated_h = 0, resolvents_h = 0\<rparr>"
  from ha have "dp_rel (h @ ext1) ?s (DPSolver_init cs)"
    by (simp add: dp_rel_def DPSolver_init_def)
  from dp_loop_h_shape [OF assms(1) this]
  obtain verdict s' t' ext2 where "dp_loop u (DPSolver_init cs) = Some (verdict, t')"
    and "dp_loop_h u ?s (h @ ext1) = Some (verdict, s', (h @ ext1) @ ext2)"
    and "dp_rel ((h @ ext1) @ ext2) s' t'" by blast
  with cp show ?thesis
    by (intro exI [of _ verdict] exI [of _ s'] exI [of _ t'] exI [of _ "ext1 @ ext2"])
      (simp add: DPSolver_solve_def DPSolver_solve_h_def DPSolver_init_h_def)
qed

text \<open>
  C9. Both engines work on a private copy: whatever formula \<open>cs\<close> the caller holds in the
  store at the address \<open>cnf\<close>, \<^verbatim>\<open>DPSolver(cnf).solve()\<close> and
  \<^verbatim>\<open>DPLLSolver(cnf).solve()\<close> return, with the results of the engines on lists, and
  every object that was in the store before the call is the same after it (the calls only
  add objects behind them): the caller's clause list and every clause in it are unchanged,
  and \<open>cnf\<close> still holds the formula \<open>cs\<close>.
\<close>

theorem engines_leave_input_unchanged:
  assumes "set_order u" and "holds_formula h cnf cs"
  shows "(\<exists>verdict s' h'. DPSolver_solve_h u cnf h = Some (verdict, s', h')
            \<and> map_option fst (DPSolver_solve u cs) = Some verdict
            \<and> take (length h) h' = h \<and> holds_formula h' cnf cs)
       \<and> (\<exists>h'. DPLLSolver_solve_h cnf h
              = Some (fst (DPLLSolver_solve cs), snd (DPLLSolver_solve cs), h')
            \<and> take (length h) h' = h \<and> holds_formula h' cnf cs)"
proof
  from DPSolver_solve_h_shape [OF assms]
  obtain verdict s' t' ext where "DPSolver_solve u cs = Some (verdict, t')"
    and "DPSolver_solve_h u cnf h = Some (verdict, s', h @ ext)" by blast
  moreover have "take (length h) (h @ ext) = h" by simp
  moreover from assms(2) have "holds_formula (h @ ext) cnf cs" by (rule holds_formula_append)
  ultimately
  show "\<exists>verdict s' h'. DPSolver_solve_h u cnf h = Some (verdict, s', h')
            \<and> map_option fst (DPSolver_solve u cs) = Some verdict
            \<and> take (length h) h' = h \<and> holds_formula h' cnf cs"
    by (intro exI [of _ verdict] exI [of _ s'] exI [of _ "h @ ext"]) simp
  from DPLLSolver_solve_h_shape [OF assms(2)]
  obtain ext where "DPLLSolver_solve_h cnf h
      = Some (fst (DPLLSolver_solve cs), snd (DPLLSolver_solve cs), h @ ext)" by blast
  moreover have "take (length h) (h @ ext) = h" by simp
  moreover from assms(2) have "holds_formula (h @ ext) cnf cs" by (rule holds_formula_append)
  ultimately
  show "\<exists>h'. DPLLSolver_solve_h cnf h
              = Some (fst (DPLLSolver_solve cs), snd (DPLLSolver_solve cs), h')
            \<and> take (length h) h' = h \<and> holds_formula h' cnf cs"
    by (intro exI [of _ "h @ ext"]) simp
qed

theorem engines_leave_input_unchanged_witness:
  "(\<exists>verdict s' h'.
      DPSolver_solve_h list_union_order 2 [Ints [1, 2], Ints [- 1], Refs [0, 1]]
        = Some (verdict, s', h')
      \<and> map_option fst (DPSolver_solve list_union_order [[1, 2], [- 1]]) = Some verdict
      \<and> take 3 h' = [Ints [1, 2], Ints [- 1], Refs [0, 1]])
   \<and> (\<exists>h'. DPLLSolver_solve_h 2 [Ints [1, 2], Ints [- 1], Refs [0, 1]]
        = Some (fst (DPLLSolver_solve [[1, 2], [- 1]]), snd (DPLLSolver_solve [[1, 2], [- 1]]), h')
      \<and> take 3 h' = [Ints [1, 2], Ints [- 1], Refs [0, 1]])"
proof -
  have "holds_formula [Ints [1, 2], Ints [- 1], Refs [0, 1]] 2 [[1, 2], [- 1]]"
    by (simp add: holds_formula_def wf_formula_def formula_at_def refs_of_def ints_of_def)
  from engines_leave_input_unchanged [OF set_order_list_union_order this]
  show ?thesis by (auto simp: numeral_3_eq_3)
qed

end
